theory Spec2Isabelle
  imports Complex_Main "HOL-Library.AList"
begin

section \<open>Vault Recall: the TF-IDF index and the resurfacing scores\<close>

text \<open>
  A shallow embedding of the indexing core of the plugin: the tokenizer and the vector
  mathematics of \<^verbatim>\<open>tfidf.ts\<close>, the \<^verbatim>\<open>EmbeddingEngine\<close> class of
  \<^verbatim>\<open>embeddings/engine.ts\<close>, the scoring functions of \<^verbatim>\<open>resurfacer/scoring.ts\<close>
  and the \<^verbatim>\<open>SmartResurfacer\<close> class that follows them.

  Conventions of the embedding.
  \<^item> A JavaScript \<^verbatim>\<open>number\<close> that holds a measurement (a frequency, a score, a time in
    milliseconds) is a \<^typ>\<open>real\<close>: arithmetic is exact, rounding, overflow and NaN of
    IEEE doubles are not represented, and no result below is about them: the result on
    the sum of the frequencies carries a tolerance for the rounding of the quotients, and
    nothing is stated about the value of a cosine similarity, which \<^verbatim>\<open>findSimilar\<close>
    compares with its threshold and orders by. A number that counts or indexes is a
    \<^typ>\<open>nat\<close> or an \<^typ>\<open>int\<close>.
  \<^item> A JavaScript \<^verbatim>\<open>Map\<close> is an association list in insertion order. \<^verbatim>\<open>set\<close> on a key
    that is present keeps the position of the entry, on a new key it appends; \<^verbatim>\<open>delete\<close>
    removes the entry. A \<^verbatim>\<open>Map\<close> never holds a key twice: \<open>wf_map\<close>.
  \<^item> A text is a \<^typ>\<open>string\<close>, a list of 8-bit code units.
  \<^item> The fields of a class instance are a record; a method takes the record and returns
    the updated one.
\<close>

subsection \<open>JavaScript maps\<close>

type_synonym ('k, 'v) js_map = "('k \<times> 'v) list"

definition map_get :: "('k, 'v) js_map \<Rightarrow> 'k \<Rightarrow> 'v option" where
  "map_get m k = map_of m k"

definition map_set :: "('k, 'v) js_map \<Rightarrow> 'k \<Rightarrow> 'v \<Rightarrow> ('k, 'v) js_map" where
  "map_set m k v = AList.update k v m"

definition map_delete :: "('k, 'v) js_map \<Rightarrow> 'k \<Rightarrow> ('k, 'v) js_map" where
  "map_delete m k = AList.delete k m"

definition map_keys :: "('k, 'v) js_map \<Rightarrow> 'k list" where
  "map_keys m = map fst m"

definition map_values :: "('k, 'v) js_map \<Rightarrow> 'v list" where
  "map_values m = map snd m"

text \<open>\<^verbatim>\<open>new Map(entries)\<close>: the entries are set one after the other.\<close>

definition new_Map :: "('k \<times> 'v) list \<Rightarrow> ('k, 'v) js_map" where
  "new_Map entries = fold (\<lambda>(k, v) m. map_set m k v) entries []"

definition wf_map :: "('k, 'v) js_map \<Rightarrow> bool" where
  "wf_map m = distinct (map fst m)"

text \<open>\<^verbatim>\<open>m.get(k) ?? 0\<close>\<close>

definition get_or_zero :: "('k, 'v::zero) js_map \<Rightarrow> 'k \<Rightarrow> 'v" where
  "get_or_zero m k = (case map_get m k of Some v \<Rightarrow> v | None \<Rightarrow> 0)"

text \<open>
  \<^verbatim>\<open>xs.slice(0, n)\<close> for an integer \<open>n\<close>: a negative end counts from the end of the
  array.
\<close>

definition slice0 :: "'a list \<Rightarrow> int \<Rightarrow> 'a list" where
  "slice0 xs n =
     (if n < 0 then take (nat (max (int (length xs) + n) 0)) xs else take (nat n) xs)"

subsection \<open>Tokenizer (tfidf.ts)\<close>

definition STOP_WORDS :: "string list" where
  "STOP_WORDS =
   [
    ''a'', ''an'', ''the'', ''and'', ''or'', ''but'', ''in'', ''on'', ''at'', ''to'',
    ''for'', ''of'', ''with'', ''by'', ''from'', ''is'', ''it'', ''its'', ''this'',
    ''that'', ''are'', ''was'', ''were'', ''be'', ''been'', ''being'', ''have'', ''has'',
    ''had'', ''do'', ''does'', ''did'', ''will'', ''would'', ''could'', ''should'',
    ''may'', ''might'', ''can'', ''shall'', ''not'', ''no'', ''nor'', ''so'', ''if'',
    ''then'', ''than'', ''too'', ''very'', ''just'', ''about'', ''above'', ''after'',
    ''again'', ''all'', ''also'', ''am'', ''any'', ''as'', ''because'', ''before'',
    ''between'', ''both'', ''each'', ''few'', ''get'', ''got'', ''he'', ''her'', ''here'',
    ''him'', ''his'', ''how'', ''i'', ''into'', ''like'', ''make'', ''me'', ''more'',
    ''most'', ''my'', ''new'', ''now'', ''only'', ''other'', ''our'', ''out'', ''over'',
    ''own'', ''same'', ''she'', ''some'', ''such'', ''up'', ''us'', ''we'', ''what'',
    ''when'', ''where'', ''which'', ''while'', ''who'', ''whom'', ''why'', ''you'',
    ''your'', ''there'', ''they'', ''them'', ''their'', ''these'', ''those'', ''through'',
    ''under'', ''until'', ''well'', ''much'', ''many'', ''still'', ''even'', ''back'',
    ''down''
   ]"

text \<open>
  Character classes of the regular expressions, on 8-bit code units: \<^verbatim>\<open>\w\<close> is
  \<^verbatim>\<open>[A-Za-z0-9_]\<close>, \<^verbatim>\<open>\d\<close> is \<^verbatim>\<open>[0-9]\<close>, \<^verbatim>\<open>\s\<close> is tab, line feed, vertical tab,
  form feed, carriage return, space and the no-break space.
\<close>

definition is_digit :: "char \<Rightarrow> bool" where
  "is_digit c = (let n = (of_char c :: nat) in 48 \<le> n \<and> n \<le> 57)"

definition is_word :: "char \<Rightarrow> bool" where
  "is_word c =
     (let n = (of_char c :: nat)
      in (65 \<le> n \<and> n \<le> 90) \<or> (97 \<le> n \<and> n \<le> 122) \<or> (48 \<le> n \<and> n \<le> 57) \<or> n = 95)"

definition is_space :: "char \<Rightarrow> bool" where
  "is_space c = (let n = (of_char c :: nat) in (9 \<le> n \<and> n \<le> 13) \<or> n = 32 \<or> n = 160)"

text \<open>
  \<^verbatim>\<open>toLowerCase\<close>: the letters A to Z and the capital letters of Latin-1 move up by 32.
\<close>

definition lower_char :: "char \<Rightarrow> char" where
  "lower_char c =
     (let n = (of_char c :: nat)
      in if (65 \<le> n \<and> n \<le> 90) \<or> (192 \<le> n \<and> n \<le> 222 \<and> n \<noteq> 215) then char_of (n + 32) else c)"

definition toLowerCase :: "string \<Rightarrow> string" where
  "toLowerCase s = map lower_char s"

text \<open>\<^verbatim>\<open>.replace(/[^\w\s]/g, ' ')\<close>\<close>

definition replace_punctuation :: "string \<Rightarrow> string" where
  "replace_punctuation s = map (\<lambda>c. if is_word c \<or> is_space c then c else CHR '' '') s"

text \<open>\<^verbatim>\<open>.replace(/\d+/g, ' ')\<close>: every maximal run of digits becomes one space.\<close>

function replace_numbers :: "string \<Rightarrow> string" where
  "replace_numbers [] = []"
| "replace_numbers (c # cs) =
     (if is_digit c then CHR '' '' # replace_numbers (dropWhile is_digit cs)
      else c # replace_numbers cs)"
  by pat_completeness auto
termination
  by (relation "measure length") (auto simp: less_Suc_eq_le length_dropWhile_le)

text \<open>
  \<^verbatim>\<open>.split(/\s+/)\<close>: the pieces between the maximal runs of white space; a text that
  starts or ends with white space has an empty first or last piece, and the empty text
  has one piece, the empty string.
\<close>

function split_whitespace :: "string \<Rightarrow> string list" where
  "split_whitespace [] = [[]]"
| "split_whitespace (c # cs) =
     (if is_space c then [] # split_whitespace (dropWhile is_space cs)
      else (case split_whitespace cs of
              [] \<Rightarrow> [[c]]
            | w # ws \<Rightarrow> (c # w) # ws))"
  by pat_completeness auto
termination
  by (relation "measure length") (auto simp: less_Suc_eq_le length_dropWhile_le)

definition endsWith :: "string \<Rightarrow> string \<Rightarrow> bool" where
  "endsWith word suffix =
     (length suffix \<le> length word \<and> drop (length word - length suffix) word = suffix)"

definition suffixes :: "string list" where
  "suffixes =
   [
    ''tion'', ''sion'', ''ment'', ''ness'', ''ible'', ''able'', ''ful'', ''less'', ''ous'',
    ''ive'', ''ing'', ''ies'', ''ied'', ''ers'', ''est'', ''ity'', ''aly'', ''ely'',
    ''ize'', ''ise'', ''ify'', ''ate'', ''ent'', ''ant'', ''ary'', ''ery'', ''ory'',
    ''ly'', ''ed'', ''er'', ''es'', ''al'', ''en''
   ]"

text \<open>The loop of \<^verbatim>\<open>simpleStem\<close> over the suffixes: the first suffix that fits is stripped.\<close>

fun strip_suffix :: "string list \<Rightarrow> string \<Rightarrow> string option" where
  "strip_suffix [] word = None"
| "strip_suffix (suffix # rest) word =
     (if endsWith word suffix \<and> int (length word) - int (length suffix) \<ge> 3
      then Some (slice0 word (int (length word) - int (length suffix)))
      else strip_suffix rest word)"

definition simpleStem :: "string \<Rightarrow> string" where
  "simpleStem word =
     (if length word \<le> 4 then word
      else (case strip_suffix suffixes word of
              Some stem \<Rightarrow> stem
            | None \<Rightarrow>
                if endsWith word ''s'' \<and> \<not> endsWith word ''ss'' \<and> length word > 3
                then slice0 word (- 1)
                else word))"

text \<open>The characters of a term: the letters a to z and the underscore.\<close>

definition is_term_char :: "char \<Rightarrow> bool" where
  "is_term_char c = (let n = (of_char c :: nat) in (97 \<le> n \<and> n \<le> 122) \<or> n = 95)"

definition keep_token :: "string \<Rightarrow> bool" where
  "keep_token token = (length token > 2 \<and> token \<notin> set STOP_WORDS)"

definition tokenize :: "string \<Rightarrow> string list" where
  "tokenize text =
     map simpleStem
       (filter keep_token
          (split_whitespace (replace_numbers (replace_punctuation (toLowerCase text)))))"

text \<open>\<^verbatim>\<open>tokens.join(' ')\<close>\<close>

fun join_space :: "string list \<Rightarrow> string" where
  "join_space [] = []"
| "join_space [w] = w"
| "join_space (w # ws) = w @ CHR '' '' # join_space ws"

subsection \<open>Vector mathematics (tfidf.ts)\<close>

type_synonym vec = "(string, real) js_map"

text \<open>
  \<^verbatim>\<open>computeTF\<close>: the first loop counts the tokens, the second divides every count by
  the number of tokens, in place. \<open>increment m k\<close> is \<^verbatim>\<open>m.set(k, (m.get(k) ?? 0) + 1)\<close>,
  which \<^verbatim>\<open>computeIDF\<close> uses as well.
\<close>

definition increment :: "(string, nat) js_map \<Rightarrow> string \<Rightarrow> (string, nat) js_map" where
  "increment m k = map_set m k (get_or_zero m k + 1)"

definition countTokens :: "string list \<Rightarrow> (string, nat) js_map \<Rightarrow> (string, nat) js_map" where
  "countTokens tokens tf = fold (\<lambda>token tf. increment tf token) tokens tf"

definition computeTF :: "string list \<Rightarrow> vec" where
  "computeTF tokens =
     (let total = length tokens in
      if total = 0 then []
      else map (\<lambda>(term, count). (term, real count / real total)) (countTokens tokens []))"

text \<open>
  \<^verbatim>\<open>computeIDF\<close>: \<open>df\<close> counts, for every term, the documents that hold it as a
  key; the table maps the term to \<open>ln (N / (1 + df))\<close>.
\<close>

definition countDocs :: "vec list \<Rightarrow> (string, nat) js_map \<Rightarrow> (string, nat) js_map" where
  "countDocs documents df =
     fold (\<lambda>doc df. fold (\<lambda>term df. increment df term) (map_keys doc) df) documents df"

definition computeIDF :: "vec list \<Rightarrow> vec" where
  "computeIDF documents =
     (let N = length documents in
      if N = 0 then []
      else map (\<lambda>(term, freq). (term, ln (real N / (1 + real freq)))) (countDocs documents []))"

definition computeTFIDF :: "vec \<Rightarrow> vec \<Rightarrow> vec" where
  "computeTFIDF tf idf =
     fold (\<lambda>(term, tfValue) tfidf.
             let idfValue = get_or_zero idf term;
                 score = tfValue * idfValue
             in if score > 0 then map_set tfidf term score else tfidf)
       tf []"

text \<open>
  \<^verbatim>\<open>cosineSimilarity\<close>: the first loop accumulates the dot product and the squared norm
  of \<open>vecA\<close>, the second the squared norm of \<open>vecB\<close>. The sums, the roots and the
  quotient are exact here; the doubles of the code round each of them and can underflow
  or overflow, so the value of the code can differ from this one.
\<close>

definition cosineSimilarity :: "vec \<Rightarrow> vec \<Rightarrow> real" where
  "cosineSimilarity vecA vecB =
     (let (dotProduct, normA) =
            fold (\<lambda>(term, valA) (dotProduct, normA).
                    (case map_get vecB term of
                       Some valB \<Rightarrow> dotProduct + valA * valB
                     | None \<Rightarrow> dotProduct,
                     normA + valA * valA))
              vecA (0, 0);
          normB = fold (\<lambda>valB normB. normB + valB * valB) (map_values vecB) 0;
          denominator = sqrt normA * sqrt normB
      in if denominator = 0 then 0 else dotProduct / denominator)"

text \<open>The document frequency of a term: the number of documents that hold it as a key.\<close>

definition df_of :: "vec list \<Rightarrow> string \<Rightarrow> nat" where
  "df_of documents t = length (filter (\<lambda>d. t \<in> fst ` set d) documents)"

subsection \<open>The host application\<close>

text \<open>
  What the plugin reads from Obsidian. A \<^verbatim>\<open>TFile\<close> has its path, its extension and
  \<^verbatim>\<open>stat.mtime\<close>, in milliseconds. The \<^verbatim>\<open>App\<close> holds the files of the vault,
  \<^verbatim>\<open>metadataCache.resolvedLinks\<close> (for every source path, the link count of every
  target path) and the first line of every file, which \<^verbatim>\<open>getSnippet\<close> shows.
  \<^verbatim>\<open>vault.getAbstractFileByPath(p)\<close> is the file at path \<open>p\<close>; a path that names
  nothing or a folder fails the test \<^verbatim>\<open>f instanceof TFile\<close> and is \<open>None\<close> here.
\<close>

record tfile =
  path :: string
  extension :: string
  mtime :: real

record app =
  files :: "tfile list"
  resolvedLinks :: "(string \<times> (string \<times> nat) list) list"
  getSnippet :: "tfile \<Rightarrow> string"

definition getAbstractFileByPath :: "app \<Rightarrow> string \<Rightarrow> tfile option" where
  "getAbstractFileByPath a p = find (\<lambda>f. path f = p) (files a)"

definition getMarkdownFiles :: "app \<Rightarrow> tfile list" where
  "getMarkdownFiles a = filter (\<lambda>f. extension f = ''md'') (files a)"

subsection \<open>The index engine (embeddings/engine.ts)\<close>

text \<open>
  The fields of \<^verbatim>\<open>EmbeddingEngine\<close> that hold the index. A document reaches the engine
  as its path and its indexable content, the text that \<^verbatim>\<open>getIndexableContent\<close> makes
  of the title and the body that the host has read.

  \<^verbatim>\<open>indexVault\<close> awaits \<^verbatim>\<open>cachedRead\<close> for every file inside its first loop, after
  \<^verbatim>\<open>this.tfMaps.clear()\<close> and without a handler: a read that is rejected ends the
  call there, and the promise of \<^verbatim>\<open>indexVault\<close> is rejected. So a file comes with the
  outcome of its read, \<open>None\<close> for a rejected one, and \<^verbatim>\<open>indexVault\<close> returns how its
  promise settles together with the engine as the statements that ran have left it.
  \<^verbatim>\<open>indexNote\<close> reads before it writes anything: after a rejected read the engine is
  as it was, as if the call had not been made, and \<open>indexNote\<close> below takes the content
  that was read. The operations run one after the other: none starts while another one
  awaits a read.
\<close>

record engine =
  tfMaps :: "(string, vec) js_map"
  idf :: vec
  tfidfVectors :: "(string, vec) js_map"
  indexReady :: bool

definition new_engine :: engine where
  "new_engine = \<lparr>tfMaps = [], idf = [], tfidfVectors = [], indexReady = False\<rparr>"

definition isReady :: "engine \<Rightarrow> bool" where
  "isReady e = indexReady e"

text \<open>Step 3 of \<^verbatim>\<open>indexVault\<close>, which \<^verbatim>\<open>loadIndex\<close> repeats: a vector for every TF map.\<close>

definition buildVectors :: "(string, vec) js_map \<Rightarrow> vec \<Rightarrow> (string, vec) js_map" where
  "buildVectors tfs table = fold (\<lambda>(p, tf) m. map_set m p (computeTFIDF tf table)) tfs []"

datatype promise = Resolved | Rejected

text \<open>
  Step 1 of \<^verbatim>\<open>indexVault\<close>: the TF maps so far, and whether the loop completed (it
  stops at the first read that is rejected).
\<close>

fun buildTfMaps ::
  "(string \<times> string option) list \<Rightarrow> (string, vec) js_map \<Rightarrow> (string, vec) js_map \<times> bool" where
  "buildTfMaps [] m = (m, True)"
| "buildTfMaps ((p, None) # rest) m = (m, False)"
| "buildTfMaps ((p, Some content) # rest) m =
     buildTfMaps rest (map_set m p (computeTF (tokenize content)))"

definition indexVault :: "(string \<times> string option) list \<Rightarrow> engine \<Rightarrow> promise \<times> engine" where
  "indexVault docs e =
     (if length docs = 0 then (Resolved, e)
      else
        let (tfs, completed) = buildTfMaps docs [];
            e1 = e\<lparr>tfMaps := tfs\<rparr>
        in if \<not> completed then (Rejected, e1)
           else
             let table = computeIDF (map_values tfs)
             in (Resolved, e1\<lparr>idf := table, tfidfVectors := buildVectors tfs table,
                              indexReady := True\<rparr>))"

definition indexNote :: "string \<Rightarrow> string \<Rightarrow> engine \<Rightarrow> engine" where
  "indexNote p content e =
     (if \<not> indexReady e then e
      else
        let tf = computeTF (tokenize content);
            tfs = map_set (tfMaps e) p tf;
            table = computeIDF (map_values tfs)
        in e\<lparr>tfMaps := tfs, idf := table,
             tfidfVectors := map_set (tfidfVectors e) p (computeTFIDF tf table)\<rparr>)"

definition removeNote :: "string \<Rightarrow> engine \<Rightarrow> engine" where
  "removeNote p e =
     e\<lparr>tfMaps := map_delete (tfMaps e) p, tfidfVectors := map_delete (tfidfVectors e) p\<rparr>"

record similar_note =
  sfile :: tfile
  similarity :: real

text \<open>
  \<^verbatim>\<open>findSimilar\<close>: the loop collects the scores above the threshold, \<^verbatim>\<open>sort\<close> (stable)
  orders them by falling similarity, \<^verbatim>\<open>slice(0, topK)\<close> cuts, and the paths that are
  files of the vault become the result.
\<close>

definition similarityScores :: "engine \<Rightarrow> string \<Rightarrow> vec \<Rightarrow> (string \<times> real) list" where
  "similarityScores e p sourceVector =
     fold (\<lambda>(q, vector) scores.
             if q = p then scores
             else let sim = cosineSimilarity sourceVector vector
                  in if sim > 0.01 then scores @ [(q, sim)] else scores)
       (tfidfVectors e) []"

definition findSimilar :: "app \<Rightarrow> engine \<Rightarrow> tfile \<Rightarrow> int \<Rightarrow> similar_note list" where
  "findSimilar a e f topK =
     (if \<not> indexReady e then []
      else (case map_get (tfidfVectors e) (path f) of
              None \<Rightarrow> []
            | Some sourceVector \<Rightarrow>
                let scores = similarityScores e (path f) sourceVector;
                    sorted = sort_key (\<lambda>s. - snd s) scores
                in List.map_filter
                     (\<lambda>(q, sim). (case getAbstractFileByPath a q of
                                     Some g \<Rightarrow> Some \<lparr>sfile = g, similarity = sim\<rparr>
                                   | None \<Rightarrow> None))
                     (slice0 sorted topK)))"

text \<open>
  The snapshot that \<^verbatim>\<open>loadIndex\<close> reads. The file may be absent, the adapter may fail
  to read it, \<^verbatim>\<open>JSON.parse\<close> may reject it; otherwise there is a parsed value.
  \<^verbatim>\<open>Object.entries\<close> raises a \<^verbatim>\<open>TypeError\<close> on \<^verbatim>\<open>undefined\<close> and \<^verbatim>\<open>null\<close>
  (\<open>Nullish\<close>) and lists the entries of any other value (\<open>Entries\<close>). Reading
  \<^verbatim>\<open>data.tfMaps\<close> raises when \<^verbatim>\<open>data\<close> is \<^verbatim>\<open>null\<close> (\<open>JsonNull\<close>); a value without
  the property has it \<^verbatim>\<open>undefined\<close>. The numbers of the snapshot are numbers, as the
  interface \<^verbatim>\<open>NoteIndex\<close> declares; \<^verbatim>\<open>lastIndexed\<close> is not read.
\<close>

datatype 'a js_value = Nullish | Entries 'a

datatype note_index =
  JsonNull
| NoteIndex "(string \<times> (string \<times> real) list js_value) list js_value"
            "(string \<times> real) list js_value"

datatype index_file = NoFile | ReadError | ParseError | Parsed note_index

text \<open>
  The first loop of \<^verbatim>\<open>loadIndex\<close>: the map so far, and whether the loop completed
  (\<^verbatim>\<open>Object.entries(tf)\<close> raises on a nullish TF map).
\<close>

fun restoreTfMaps ::
  "(string \<times> (string \<times> real) list js_value) list \<Rightarrow> (string, vec) js_map
     \<Rightarrow> (string, vec) js_map \<times> bool" where
  "restoreTfMaps [] m = (m, True)"
| "restoreTfMaps ((filePath, Nullish) # rest) m = (m, False)"
| "restoreTfMaps ((filePath, Entries tf) # rest) m =
     restoreTfMaps rest (map_set m filePath (new_Map tf))"

text \<open>
  \<^verbatim>\<open>loadIndex\<close> returns its boolean and leaves the engine as the statements before the
  exception, if any, have made it: \<^verbatim>\<open>catch\<close> only returns \<^verbatim>\<open>false\<close>.
\<close>

definition loadIndex :: "index_file \<Rightarrow> engine \<Rightarrow> bool \<times> engine" where
  "loadIndex snapshot e =
     (case snapshot of
        NoFile \<Rightarrow> (False, e)
      | ReadError \<Rightarrow> (False, e)
      | ParseError \<Rightarrow> (False, e)
      | Parsed data \<Rightarrow>
          let e1 = e\<lparr>tfMaps := []\<rparr>
          in (case data of
                JsonNull \<Rightarrow> (False, e1)
              | NoteIndex Nullish _ \<Rightarrow> (False, e1)
              | NoteIndex (Entries tfEntries) idfValue \<Rightarrow>
                  let (tfs, completed) = restoreTfMaps tfEntries [];
                      e2 = e1\<lparr>tfMaps := tfs\<rparr>
                  in if \<not> completed then (False, e2)
                     else (case idfValue of
                             Nullish \<Rightarrow> (False, e2)
                           | Entries idfEntries \<Rightarrow>
                               let table = new_Map idfEntries
                               in (True, e2\<lparr>idf := table,
                                           tfidfVectors := buildVectors tfs table,
                                           indexReady := True\<rparr>))))"

text \<open>The operations that change the index, and a run of them from a new engine.\<close>

datatype operation =
  IndexVault "(string \<times> string option) list"
| IndexNote string string
| RemoveNote string
| LoadIndex index_file

fun apply_operation :: "operation \<Rightarrow> engine \<Rightarrow> engine" where
  "apply_operation (IndexVault docs) e = snd (indexVault docs e)"
| "apply_operation (IndexNote p content) e = indexNote p content e"
| "apply_operation (RemoveNote p) e = removeNote p e"
| "apply_operation (LoadIndex snapshot) e = snd (loadIndex snapshot e)"

definition run :: "operation list \<Rightarrow> engine" where
  "run ops = fold apply_operation ops new_engine"

text \<open>A snapshot that \<^verbatim>\<open>loadIndex\<close> loads: every \<^verbatim>\<open>Object.entries\<close> has something to list.\<close>

fun loads :: "index_file \<Rightarrow> bool" where
  "loads (Parsed (NoteIndex (Entries tfEntries) (Entries idfEntries))) =
     list_all (\<lambda>(p, tf). tf \<noteq> Nullish) tfEntries"
| "loads _ = False"

text \<open>A snapshot that raises after \<^verbatim>\<open>loadIndex\<close> has begun to write.\<close>

definition breaks_off :: "index_file \<Rightarrow> bool" where
  "breaks_off snapshot = (case snapshot of Parsed data \<Rightarrow> \<not> loads snapshot | _ \<Rightarrow> False)"

subsection \<open>Scoring (resurfacer/scoring.ts)\<close>

definition relevanceScore :: "real \<Rightarrow> real" where
  "relevanceScore sim = min (max sim 0) 1"

text \<open>\<open>now\<close> is the reading of \<^verbatim>\<open>Date.now()\<close>, in milliseconds.\<close>

definition timeDecayScore :: "real \<Rightarrow> real \<Rightarrow> real" where
  "timeDecayScore now lastModifiedMs =
     (let daysSinceModified = (now - lastModifiedMs) / (1000 * 60 * 60 * 24)
      in 1 - exp (- daysSinceModified / 20))"

definition orphanBoost :: "nat \<Rightarrow> real" where
  "orphanBoost backlinkCount =
     (if backlinkCount = 0 then 1.0
      else if backlinkCount = 1 then 0.5
      else if backlinkCount \<le> 3 then 0.2
      else 0)"

definition getBacklinkCount :: "app \<Rightarrow> tfile \<Rightarrow> nat" where
  "getBacklinkCount a f =
     fold (\<lambda>(sourcePath, targets) count.
             if path f \<in> set (map_keys targets) then count + 1 else count)
       (resolvedLinks a) 0"

record weights =
  w_relevance :: real
  w_decay :: real
  w_orphan :: real

definition default_weights :: weights where
  "default_weights = \<lparr>w_relevance = 0.5, w_decay = 0.35, w_orphan = 0.15\<rparr>"

definition compositeScore :: "real \<Rightarrow> real \<Rightarrow> real \<Rightarrow> weights \<Rightarrow> real" where
  "compositeScore relevance decay orphan w =
     relevance * w_relevance w + decay * w_decay w + orphan * w_orphan w"

subsection \<open>The resurfacer\<close>

text \<open>
  The reason of a resurfaced note. The texts are
  \<^item> \<open>RelatedToRecentWork\<close>: \<^verbatim>\<open>Related to your recent work\<close>,
  \<^item> \<open>WrittenLongAgo\<close>: \<^verbatim>\<open>Written long ago, might be worth revisiting\<close>,
  \<^item> \<open>UnlinkedNote\<close>: \<^verbatim>\<open>Unlinked note - consider connecting it\<close> (with a dash),
  \<^item> \<open>ForgottenNote\<close>: \<^verbatim>\<open>Forgotten note worth revisiting\<close>,
  \<^item> \<open>NotModifiedIn n\<close>: \<^verbatim>\<open>Not modified in n days\<close>.
\<close>

datatype reason_text =
  RelatedToRecentWork | WrittenLongAgo | UnlinkedNote | ForgottenNote | NotModifiedIn int

record resurfaced_note =
  rfile :: tfile
  score :: real
  reason :: reason_text
  daysSinceModified :: int
  snippet :: string

text \<open>\<^verbatim>\<open>Math.round\<close>\<close>

definition Math_round :: "real \<Rightarrow> int" where
  "Math_round x = \<lfloor>x + 1 / 2\<rfloor>"

definition getDaysSinceModified :: "real \<Rightarrow> tfile \<Rightarrow> real" where
  "getDaysSinceModified now f = (now - mtime f) / (1000 * 60 * 60 * 24)"

definition getRecentlyModifiedFiles :: "real \<Rightarrow> app \<Rightarrow> real \<Rightarrow> tfile list" where
  "getRecentlyModifiedFiles now a withinDays =
     (let cutoff = now - withinDays * 24 * 60 * 60 * 1000
      in slice0 (sort_key (\<lambda>f. - mtime f) (filter (\<lambda>f. mtime f > cutoff) (getMarkdownFiles a))) 10)"

text \<open>The body of the loop of \<^verbatim>\<open>getForgottenNotes\<close>, for a file that is old enough.\<close>

definition forgottenNote :: "real \<Rightarrow> app \<Rightarrow> tfile \<Rightarrow> resurfaced_note" where
  "forgottenNote now a f =
     (let daysSince = getDaysSinceModified now f;
          backlinks = getBacklinkCount a f;
          decay = timeDecayScore now (mtime f);
          orphan = orphanBoost backlinks;
          sc = compositeScore 0.3 decay orphan default_weights;
          r = (if orphan > 0.5 then UnlinkedNote else NotModifiedIn (Math_round daysSince))
      in \<lparr>rfile = f, score = sc, reason = r, daysSinceModified = Math_round daysSince,
          snippet = getSnippet a f\<rparr>)"

definition getForgottenNotes :: "real \<Rightarrow> app \<Rightarrow> real \<Rightarrow> int \<Rightarrow> resurfaced_note list" where
  "getForgottenNotes now a minDaysOld count =
     (let scored = map (forgottenNote now a)
                     (filter (\<lambda>f. \<not> getDaysSinceModified now f < minDaysOld) (getMarkdownFiles a))
      in slice0 (sort_key (\<lambda>n. - score n) scored) count)"

text \<open>
  The first loop of \<^verbatim>\<open>getDailyDigest\<close>: for every path, the file and the greatest
  similarity to a recent file.
\<close>

definition digestCandidates ::
  "real \<Rightarrow> app \<Rightarrow> engine \<Rightarrow> real \<Rightarrow> tfile list \<Rightarrow> (string, tfile \<times> real) js_map" where
  "digestCandidates now a e minDaysOld recentFiles =
     fold (\<lambda>recentFile candidateMap.
             fold (\<lambda>s candidateMap.
                     if getDaysSinceModified now (sfile s) < minDaysOld then candidateMap
                     else (case map_get candidateMap (path (sfile s)) of
                             None \<Rightarrow> map_set candidateMap (path (sfile s)) (sfile s, similarity s)
                           | Some existing \<Rightarrow>
                               if similarity s > snd existing
                               then map_set candidateMap (path (sfile s)) (sfile s, similarity s)
                               else candidateMap))
               (findSimilar a e recentFile 20) candidateMap)
       recentFiles []"

text \<open>The body of the second loop of \<^verbatim>\<open>getDailyDigest\<close>.\<close>

definition scoreCandidate :: "real \<Rightarrow> app \<Rightarrow> tfile \<times> real \<Rightarrow> resurfaced_note" where
  "scoreCandidate now a candidate =
     (let f = fst candidate;
          maxSimilarity = snd candidate;
          daysSince = getDaysSinceModified now f;
          backlinks = getBacklinkCount a f;
          rel = relevanceScore maxSimilarity;
          decay = timeDecayScore now (mtime f);
          orphan = orphanBoost backlinks;
          sc = compositeScore rel decay orphan default_weights;
          r = (if rel > 0.3 then RelatedToRecentWork
               else if decay > 0.8 then WrittenLongAgo
               else if orphan > 0.5 then UnlinkedNote
               else ForgottenNote)
      in \<lparr>rfile = f, score = sc, reason = r, daysSinceModified = Math_round daysSince,
          snippet = getSnippet a f\<rparr>)"

definition getDailyDigest ::
  "real \<Rightarrow> app \<Rightarrow> engine \<Rightarrow> real \<Rightarrow> int \<Rightarrow> resurfaced_note list" where
  "getDailyDigest now a e minDaysOld count =
     (if \<not> isReady e then []
      else
        let recentFiles = getRecentlyModifiedFiles now a 3
        in if length recentFiles = 0 then getForgottenNotes now a minDaysOld count
           else
             let candidateMap = digestCandidates now a e minDaysOld recentFiles;
                 scored = map (\<lambda>(p, candidate). scoreCandidate now a candidate) candidateMap
             in slice0 (sort_key (\<lambda>n. - score n) scored) count)"

text \<open>
  The reason as the documentation of the digest words it, by threshold priority on the
  relevance, the staleness and the connectivity boost of a result.
\<close>

definition priority_reason :: "real \<Rightarrow> real \<Rightarrow> real \<Rightarrow> reason_text" where
  "priority_reason relevance staleness boost =
     (if relevance > 0.3 then RelatedToRecentWork
      else if staleness > 0.8 then WrittenLongAgo
      else if boost > 0.5 then UnlinkedNote
      else ForgottenNote)"

subsection \<open>Notions for the results about the engine\<close>

text \<open>Every read of a build succeeds.\<close>

definition reads_succeed :: "(string \<times> string option) list \<Rightarrow> bool" where
  "reads_succeed docs = list_all (\<lambda>(p, content). content \<noteq> None) docs"

text \<open>
  An operation that makes an engine ready, whatever its state: a full build over at least
  one document whose reads all succeed, or a \<^verbatim>\<open>loadIndex\<close> that loads its snapshot.
\<close>

fun makes_ready :: "operation \<Rightarrow> bool" where
  "makes_ready (IndexVault docs) = (docs \<noteq> [] \<and> reads_succeed docs)"
| "makes_ready (LoadIndex snapshot) = loads snapshot"
| "makes_ready _ = False"

text \<open>
  The keys of the two maps along a run. A build that completes over at least one document
  and a load that loads write the TF maps and the TF-IDF vectors (\<open>makes_ready\<close>). A
  build that a rejected read ends and a load that raises on a parsed snapshot have
  written the TF maps only (\<open>writes_tf_only\<close>). Every other operation treats the two
  maps alike. \<open>keys_known\<close> tells whether the two maps are known to have the same keys
  after the operations, from an engine for which this was known or not: after an
  operation that has written the TF maps only it is known exactly when that operation
  has left the TF maps with the keys of the TF-IDF vectors.
\<close>

fun writes_tf_only :: "operation \<Rightarrow> bool" where
  "writes_tf_only (IndexVault docs) = (docs \<noteq> [] \<and> \<not> reads_succeed docs)"
| "writes_tf_only (LoadIndex snapshot) = breaks_off snapshot"
| "writes_tf_only _ = False"

fun keys_known :: "operation list \<Rightarrow> engine \<Rightarrow> bool \<Rightarrow> bool" where
  "keys_known [] e known = known"
| "keys_known (operation # ops) e known =
     keys_known ops (apply_operation operation e)
       (makes_ready operation
        \<or> (if writes_tf_only operation
            then map_keys (tfMaps (apply_operation operation e))
                   = map_keys (tfidfVectors (apply_operation operation e))
            else known))"

definition keys_settled :: "operation list \<Rightarrow> bool" where
  "keys_settled ops = keys_known ops new_engine True"

text \<open>
  The same for the IDF table. An operation computes the table from the TF maps
  (\<open>recomputes\<close>) when it is a build over at least one document whose reads all
  succeed, or an upsert on a ready engine. It leaves the TF maps and the table as they
  are (\<open>leaves_index\<close>) when it is a build over no document, an upsert on an engine
  that is not ready, the removal of a path that is not indexed, or a load that finds no
  JSON. The other operations change the TF maps or the table without computing it: the
  removal of an indexed document, a build that a rejected read ends, a load of a parsed
  snapshot. \<open>idf_known\<close> tells whether the table is known to be the one of the current
  TF maps after the operations: after an operation of the last kind it is known exactly
  when that operation has left it so.
\<close>

fun recomputes :: "operation \<Rightarrow> engine \<Rightarrow> bool" where
  "recomputes (IndexVault docs) e = (docs \<noteq> [] \<and> reads_succeed docs)"
| "recomputes (IndexNote p content) e = isReady e"
| "recomputes _ e = False"

fun leaves_index :: "operation \<Rightarrow> engine \<Rightarrow> bool" where
  "leaves_index (IndexVault docs) e = (docs = [])"
| "leaves_index (IndexNote p content) e = (\<not> isReady e)"
| "leaves_index (RemoveNote p) e = (p \<notin> set (map_keys (tfMaps e)))"
| "leaves_index (LoadIndex snapshot) e = (\<not> loads snapshot \<and> \<not> breaks_off snapshot)"

fun idf_known :: "operation list \<Rightarrow> engine \<Rightarrow> bool \<Rightarrow> bool" where
  "idf_known [] e known = known"
| "idf_known (operation # ops) e known =
     idf_known ops (apply_operation operation e)
       (recomputes operation e
        \<or> (if leaves_index operation e then known
            else idf (apply_operation operation e)
                   = computeIDF (map_values (tfMaps (apply_operation operation e)))))"

definition idf_settled :: "operation list \<Rightarrow> bool" where
  "idf_settled ops = idf_known ops new_engine True"

text \<open>The maps of an engine hold no key twice.\<close>

definition wf_engine :: "engine \<Rightarrow> bool" where
  "wf_engine e =
     (wf_map (tfMaps e) \<and> list_all wf_map (map_values (tfMaps e)) \<and> wf_map (tfidfVectors e))"

text \<open>
  The index is up to date for a document: the IDF table is the one of the current TF
  maps, and the vector of the document is the one of its TF map against that table.
\<close>

definition up_to_date :: "engine \<Rightarrow> string \<Rightarrow> bool" where
  "up_to_date e p =
     (idf e = computeIDF (map_values (tfMaps e))
      \<and> (case map_get (tfMaps e) p of
            None \<Rightarrow> False
          | Some tf \<Rightarrow> map_get (tfidfVectors e) p = Some (computeTFIDF tf (idf e))))"

section \<open>Properties\<close>

subsection \<open>Maps: basic facts\<close>

lemma wf_map_set: "wf_map m \<Longrightarrow> wf_map (map_set m k v)"
  by (simp add: wf_map_def map_set_def distinct_update)

lemma wf_map_delete: "wf_map m \<Longrightarrow> wf_map (map_delete m k)"
  by (simp add: wf_map_def map_delete_def distinct_delete)

lemma map_get_set: "map_get (map_set m k v) k' = (if k' = k then Some v else map_get m k')"
  by (simp add: map_get_def map_set_def update_conv')

lemma keys_map_set:
  "map fst (map_set m k v) = (if k \<in> set (map fst m) then map fst m else map fst m @ [k])"
  by (simp add: map_set_def update_keys)

lemma map_set_fresh: "k \<notin> fst ` set m \<Longrightarrow> map_set m k v = m @ [(k, v)]"
  by (induction m) (auto simp: map_set_def)

subsection \<open>Document frequencies and weights\<close>

lemma inner_keys:
  "fst ` set (fold (\<lambda>term df. increment df term) ks df)
     = fst ` set df \<union> set ks"
  by (induction ks arbitrary: df) (auto simp: increment_def map_set_def dom_update)

lemma inner_wf:
  "wf_map df \<Longrightarrow> wf_map (fold (\<lambda>term df. increment df term) ks df)"
  by (induction ks arbitrary: df) (auto simp: increment_def wf_map_set)

lemma get_or_zero_set:
  "get_or_zero (map_set m k v) k' = (if k' = k then v else get_or_zero m k')"
  by (simp add: get_or_zero_def map_get_set)

lemma inner_count:
  "distinct ks \<Longrightarrow>
   get_or_zero (fold (\<lambda>term df. increment df term) ks df) t
     = get_or_zero df t + (if t \<in> set ks then 1 else 0)"
  by (induction ks arbitrary: df) (auto simp: increment_def get_or_zero_set)

lemma countDocs_keys: "fst ` set (countDocs docs df) = fst ` set df \<union> (\<Union>d\<in>set docs. fst ` set d)"
  unfolding countDocs_def
  by (induction docs arbitrary: df) (auto simp: inner_keys map_keys_def)

lemma countDocs_wf: "wf_map df \<Longrightarrow> wf_map (countDocs docs df)"
  unfolding countDocs_def
  by (induction docs arbitrary: df) (auto simp: inner_wf)

lemma countDocs_count:
  "\<forall>d\<in>set docs. wf_map d \<Longrightarrow>
   get_or_zero (countDocs docs df) t
     = get_or_zero df t + length (filter (\<lambda>d. t \<in> fst ` set d) docs)"
  unfolding countDocs_def
  by (induction docs arbitrary: df) (auto simp: inner_count map_keys_def wf_map_def)

lemma map_get_in_keys:
  "k \<in> fst ` set m \<Longrightarrow> map_get m k = Some (get_or_zero m k)"
  by (cases "map_of m k") (auto simp: get_or_zero_def map_get_def map_of_eq_None_iff)

lemma map_get_not_in_keys: "k \<notin> fst ` set m \<Longrightarrow> map_get m k = None"
  by (simp add: map_get_def map_of_eq_None_iff)


lemma df_of_pos_iff: "0 < df_of docs t \<longleftrightarrow> t \<in> (\<Union>d\<in>set docs. fst ` set d)"
  by (auto simp: df_of_def filter_empty_conv)

lemma computeIDF_get:
  assumes "\<forall>d\<in>set docs. wf_map d"
  shows "map_get (computeIDF docs) t =
           (if df_of docs t = 0 then None
            else Some (ln (real (length docs) / (1 + real (df_of docs t)))))"
proof (cases "docs = []")
  case True
  then show ?thesis by (simp add: computeIDF_def df_of_def map_get_def)
next
  case False
  let ?df = "countDocs docs []"
  have get: "map_get (computeIDF docs) t
      = map_option (\<lambda>freq. ln (real (length docs) / (1 + real freq))) (map_get ?df t)"
    using False by (simp add: computeIDF_def map_get_def map_of_map)
  have cnt: "get_or_zero ?df t = df_of docs t"
    using countDocs_count[OF assms, of "[]" t] by (simp add: df_of_def get_or_zero_def map_get_def)
  show ?thesis
  proof (cases "df_of docs t = 0")
    case True
    then have "t \<notin> fst ` set ?df" using df_of_pos_iff[of docs t] by (simp add: countDocs_keys)
    then show ?thesis using True by (simp add: get map_get_not_in_keys)
  next
    case F: False
    then have "t \<in> fst ` set ?df" using df_of_pos_iff[of docs t] by (simp add: countDocs_keys)
    then show ?thesis using F by (simp add: get map_get_in_keys cnt)
  qed
qed

lemma fold_invariant:
  "P acc \<Longrightarrow> (\<And>x acc. x \<in> set xs \<Longrightarrow> P acc \<Longrightarrow> P (f x acc)) \<Longrightarrow> P (fold f xs acc)"
  by (induction xs arbitrary: acc) simp_all

lemma map_set_values_pos:
  "\<forall>(k, v)\<in>set acc. (0::real) < v \<Longrightarrow> 0 < s \<Longrightarrow> \<forall>(k', v)\<in>set (map_set acc k s). 0 < v"
  by (induction acc) (auto simp: map_set_def)

lemma computeTFIDF_pos: "(k, v) \<in> set (computeTFIDF tf table) \<Longrightarrow> 0 < v"
proof -
  have "\<forall>(k, v)\<in>set (computeTFIDF tf table). 0 < v"
    unfolding computeTFIDF_def
  proof (rule fold_invariant, goal_cases)
    case 1
    show ?case by simp
  next
    case (2 x acc)
    obtain k' x' where x: "x = (k', x')" by (cases x)
    show ?case
      using 2(2) map_set_values_pos[OF 2(2), of "x' * get_or_zero table k'" k']
      by (simp add: x Let_def)
  qed
  then show "(k, v) \<in> set (computeTFIDF tf table) \<Longrightarrow> 0 < v" by auto
qed

lemma computeTFIDF_elided:
  fixes table tf :: vec
  assumes "get_or_zero table t \<le> 0" "\<forall>v. (t, v) \<in> set tf \<longrightarrow> 0 \<le> v"
  shows "map_get (computeTFIDF tf table) t = None"
  unfolding computeTFIDF_def
proof (rule fold_invariant, goal_cases)
  case 1
  show ?case by (simp add: map_get_def)
next
  case (2 x acc)
  then have x_in: "x \<in> set tf" and acc: "map_get acc t = None" by simp_all
  obtain k' x' where x: "x = (k', x')" by (cases x)
  have "\<not> 0 < x' * get_or_zero table k'" if "k' = t"
  proof -
    have "0 \<le> x'" using assms(2) x_in that by (simp add: x)
    then have "x' * get_or_zero table t \<le> 0" using assms(1) by (rule mult_nonneg_nonpos)
    then show ?thesis using that by simp
  qed
  then show ?case
    using acc by (auto simp: x Let_def map_get_set)
qed

lemma sum_map_set_incr:
  "sum_list (map snd (increment m k)) = sum_list (map snd m) + 1"
  by (induction m) (auto simp: increment_def map_set_def get_or_zero_def map_get_def)

lemma countTokens_sum:
  "sum_list (map snd (countTokens tokens tf)) = sum_list (map snd tf) + length tokens"
  unfolding countTokens_def
  by (induction tokens arbitrary: tf) (simp_all add: sum_map_set_incr)

lemma sum_divide_counts:
  "(\<Sum>p\<leftarrow>m. case p of (term, count) \<Rightarrow> real count / T) = real (sum_list (map snd m)) / T"
  by (induction m) (auto simp: add_divide_distrib)

lemma computeTF_sum: "tokens \<noteq> [] \<Longrightarrow> sum_list (map_values (computeTF tokens)) = 1"
  using sum_divide_counts[of "real (length tokens)" "countTokens tokens []"]
  by (simp add: computeTF_def map_values_def comp_def case_prod_unfold countTokens_sum)

lemma idf_everywhere:
  assumes "documents \<noteq> []" "\<forall>doc\<in>set documents. wf_map doc \<and> t \<in> set (map_keys doc)"
  shows "map_get (computeIDF documents) t
           = Some (ln (real (length documents) / (1 + real (length documents))))"
proof -
  have "filter (\<lambda>d. t \<in> fst ` set d) documents = documents"
    using assms(2) by (auto simp: map_keys_def filter_id_conv)
  then have df: "df_of documents t = length documents" by (simp add: df_of_def)
  have "\<forall>d\<in>set documents. wf_map d" using assms(2) by simp
  from computeIDF_get[OF this, of t] show ?thesis using assms(1) by (simp add: df)
qed

lemma ln_ratio_neg: "0 < n \<Longrightarrow> ln (real n / (1 + real n)) < 0"
  by simp

text \<open>
  C7. In a corpus of \<open>N \<ge> 1\<close> TF vectors, a term that is a key of all of them has the IDF
  \<open>ln (N / (1 + N))\<close>, which is negative; a TF-IDF vector computed against that table
  from a TF vector (whose frequencies are not negative) has no entry for the term. Every
  entry that \<^verbatim>\<open>computeTFIDF\<close> stores is strictly positive.
\<close>

theorem ubiquitous_term_elided:
  assumes "documents \<noteq> []"
    and "\<forall>doc\<in>set documents. wf_map doc \<and> t \<in> set (map_keys doc)"
  shows "map_get (computeIDF documents) t
           = Some (ln (real (length documents) / (1 + real (length documents))))
         \<and> ln (real (length documents) / (1 + real (length documents))) < 0
         \<and> ((\<forall>x. (t, x) \<in> set tf \<longrightarrow> 0 \<le> x)
              \<longrightarrow> map_get (computeTFIDF tf (computeIDF documents)) t = None)
         \<and> (\<forall>k x. (k, x) \<in> set (computeTFIDF tf' table) \<longrightarrow> 0 < x)"
proof -
  let ?r = "ln (real (length documents) / (1 + real (length documents)))"
  have get: "map_get (computeIDF documents) t = Some ?r"
    by (rule idf_everywhere[OF assms])
  have neg: "?r < 0" using assms(1) by (intro ln_ratio_neg) simp
  have "get_or_zero (computeIDF documents) t \<le> 0"
    using get neg by (simp add: get_or_zero_def)
  then have el: "(\<forall>x. (t, x) \<in> set tf \<longrightarrow> 0 \<le> x)
      \<longrightarrow> map_get (computeTFIDF tf (computeIDF documents)) t = None"
    using computeTFIDF_elided[of "computeIDF documents" t tf] by blast
  show ?thesis using get neg el computeTFIDF_pos[of _ _ tf' table] by blast
qed

theorem ubiquitous_term_elided_witness:
  "map_get (computeIDF [[(''a'', 1)], [(''a'', 1 / 2), (''b'', 1 / 2)]]) ''a'' = Some (ln (2 / 3))
   \<and> ln (2 / 3) < (0::real)
   \<and> map_get (computeTFIDF [(''a'', 1 / 2), (''b'', 1 / 2)]
        (computeIDF [[(''a'', 1)], [(''a'', 1 / 2), (''b'', 1 / 2)]])) ''a'' = None"
  using ubiquitous_term_elided[of "[[(''a'', 1)], [(''a'', 1 / 2), (''b'', 1 / 2)]]" "''a''"
      "[(''a'', 1 / 2), (''b'', 1 / 2)]" "[]" "[]"]
  by (simp add: wf_map_def map_keys_def)

subsection \<open>Term frequencies\<close>

lemma countTokens_keys: "fst ` set (countTokens tokens tf) = fst ` set tf \<union> set tokens"
  unfolding countTokens_def using inner_keys[of tokens tf] by simp

lemma countTokens_count:
  "get_or_zero (countTokens tokens tf) t = get_or_zero tf t + count_list tokens t"
  unfolding countTokens_def
  by (induction tokens arbitrary: tf) (auto simp: increment_def get_or_zero_set)

lemma computeTF_get:
  "map_get (computeTF tokens) t =
     (if t \<in> set tokens then Some (real (count_list tokens t) / real (length tokens)) else None)"
proof (cases "tokens = []")
  case True
  then show ?thesis by (simp add: computeTF_def map_get_def)
next
  case False
  let ?tf = "countTokens tokens []"
  have get: "map_get (computeTF tokens) t = map_option (\<lambda>c. real c / real (length tokens)) (map_get ?tf t)"
    using False by (simp add: computeTF_def map_get_def map_of_map)
  have cnt: "get_or_zero ?tf t = count_list tokens t"
    using countTokens_count[of tokens "[]" t] by (simp add: get_or_zero_def map_get_def)
  have keys: "fst ` set ?tf = set tokens" by (simp add: countTokens_keys)
  show ?thesis
  proof (cases "t \<in> set tokens")
    case True
    then show ?thesis by (simp add: get map_get_in_keys keys cnt)
  next
    case F: False
    then show ?thesis by (simp add: get map_get_not_in_keys keys)
  qed
qed

lemma sum_within_tolerance:
  "list_all2 (\<lambda>v x. \<bar>v - x\<bar> \<le> tol * x) vs xs \<Longrightarrow>
   \<bar>sum_list vs - sum_list xs\<bar> \<le> tol * sum_list (xs :: real list)"
proof (induction rule: list_all2_induct)
  case Nil
  show ?case by simp
next
  case (Cons v vs x xs)
  have "\<bar>(v + sum_list vs) - (x + sum_list xs)\<bar> \<le> \<bar>v - x\<bar> + \<bar>sum_list vs - sum_list xs\<bar>"
    by linarith
  also have "\<dots> \<le> tol * x + tol * sum_list xs"
    using Cons.hyps(1) Cons.IH by linarith
  finally show ?case by (simp add: algebra_simps)
qed

text \<open>
  C8. A text with at least one character may have no token at all (a stop word, a short
  word, digits, punctuation); its TF vector is empty and the frequencies sum to 0.
\<close>

theorem tf_sum_stop_word_counterexample:
  "''the'' \<noteq> [] \<and> sum_list (map_values (computeTF (tokenize ''the''))) = 0"
proof -
  have "tokenize ''the'' = []" by code_simp
  then show ?thesis by (simp add: computeTF_def map_values_def)
qed

text \<open>
  C8, amended. For every document text \<open>D\<close> that has at least one token, the values of
  \<^verbatim>\<open>computeTF(tokenize(D))\<close> sum to 1 within arithmetic tolerance. Each stored
  frequency is count/total over the token sequence: the counts of the first loop sum to
  the number of tokens, the value stored for a token is the quotient of its count and
  that number, and nothing is stored for another term. So values that are within a
  relative tolerance \<open>tol\<close> of the quotients, as the doubles that the code stores are
  with the unit roundoff \<open>2\<^sup>-\<^sup>5\<^sup>3\<close> for \<open>tol\<close>, sum to 1 within \<open>tol\<close>.
\<close>

theorem tf_sum_one:
  assumes "tokenize D \<noteq> []"
  shows "sum_list (map_values (countTokens (tokenize D) [])) = length (tokenize D)
         \<and> map_get (computeTF (tokenize D)) t =
             (if t \<in> set (tokenize D)
              then Some (real (count_list (tokenize D) t) / real (length (tokenize D)))
              else None)
         \<and> (list_all2 (\<lambda>v x. \<bar>v - x\<bar> \<le> tol * x) vs (map_values (computeTF (tokenize D)))
              \<longrightarrow> \<bar>sum_list vs - 1\<bar> \<le> tol)"
proof -
  have 1: "sum_list (map_values (countTokens (tokenize D) [])) = length (tokenize D)"
    by (simp add: map_values_def countTokens_sum)
  have 3: "\<bar>sum_list vs - 1\<bar> \<le> tol"
    if "list_all2 (\<lambda>v x. \<bar>v - x\<bar> \<le> tol * x) vs (map_values (computeTF (tokenize D)))"
    using sum_within_tolerance[OF that] computeTF_sum[OF assms] by simp
  show ?thesis using 1 computeTF_get[of "tokenize D" t] 3 by blast
qed

theorem tf_sum_one_witness:
  "tokenize ''apple banana apple'' \<noteq> []
   \<and> sum_list (map_values (countTokens (tokenize ''apple banana apple'') [])) = 3
   \<and> map_get (computeTF (tokenize ''apple banana apple'')) ''apple'' = Some (2 / 3)
   \<and> map_values (computeTF (tokenize ''apple banana apple'')) = [2 / 3, 1 / 3]
   \<and> \<bar>sum_list [3 / 4, 1 / 3] - 1\<bar> \<le> (1 / 8 :: real)"
proof -
  have tk: "tokenize ''apple banana apple'' = [''apple'', ''banana'', ''apple'']"
    by code_simp
  have vals: "map_values (computeTF [''apple'', ''banana'', ''apple'']) = [2 / 3, 1 / 3]"
    by (simp add: computeTF_def countTokens_def increment_def map_set_def get_or_zero_def
        map_get_def map_values_def)
  show ?thesis
    using tf_sum_one[of "''apple banana apple''" "''apple''" "1 / 8" "[3 / 4, 1 / 3]"]
    by (simp add: tk vals)
qed

subsection \<open>Tokenizer\<close>

lemma lower_char_not_upper:
  "\<not> (65 \<le> (of_char (lower_char c) :: nat) \<and> (of_char (lower_char c) :: nat) \<le> 90)"
  by (auto simp: lower_char_def Let_def)

lemma term_char_lower: "is_term_char c \<Longrightarrow> lower_char c = c"
  by (auto simp: is_term_char_def lower_char_def Let_def)

lemma space_lower: "lower_char (CHR '' '') = CHR '' ''"
  by (simp add: lower_char_def)

lemma term_char_word: "is_term_char c \<Longrightarrow> is_word c"
  by (auto simp: is_term_char_def is_word_def Let_def)

lemma term_char_not_digit: "is_term_char c \<Longrightarrow> \<not> is_digit c"
  by (auto simp: is_term_char_def is_digit_def Let_def)

lemma term_char_not_space: "is_term_char c \<Longrightarrow> \<not> is_space c"
  by (auto simp: is_term_char_def is_space_def Let_def)

lemma space_is_space: "is_space (CHR '' '')"
  by (simp add: is_space_def)

lemma space_not_digit: "\<not> is_digit (CHR '' '')"
  by (simp add: is_digit_def)

lemma word_cases:
  "is_word c \<Longrightarrow> \<not> (65 \<le> (of_char c :: nat) \<and> (of_char c :: nat) \<le> 90) \<Longrightarrow> \<not> is_digit c
     \<Longrightarrow> is_term_char c"
  by (auto simp: is_word_def is_digit_def is_term_char_def Let_def)

lemma set_replace_numbers:
  "set (replace_numbers s) \<subseteq> {c \<in> set s. \<not> is_digit c} \<union> {CHR '' ''}"
proof (induction s rule: replace_numbers.induct)
  case 1
  show ?case by simp
next
  case (2 c cs)
  have "set (dropWhile is_digit cs) \<subseteq> set cs" by (rule set_dropWhileD[THEN subsetI])
  with 2 show ?case by (auto split: if_splits)
qed

lemma cleaned_chars:
  assumes "c \<in> set (replace_numbers (replace_punctuation (toLowerCase s)))"
  shows "is_space c \<or> is_term_char c"
proof (cases "c = CHR '' ''")
  case True
  then show ?thesis by (simp add: space_is_space)
next
  case False
  with assms set_replace_numbers have c: "c \<in> set (replace_punctuation (toLowerCase s))"
    and nd: "\<not> is_digit c" by auto
  from c False obtain d where d: "c = lower_char d" and ws: "is_word c \<or> is_space c"
    by (auto simp: replace_punctuation_def toLowerCase_def split: if_splits)
  show ?thesis
    using ws word_cases[OF _ _ nd] lower_char_not_upper[of d] by (auto simp: d)
qed

lemma split_whitespace_nonempty: "split_whitespace s \<noteq> []"
  by (induction s rule: split_whitespace.induct) (auto split: list.splits)

lemma split_whitespace_chars:
  "w \<in> set (split_whitespace s) \<Longrightarrow> c \<in> set w \<Longrightarrow> c \<in> set s \<and> \<not> is_space c"
proof (induction s arbitrary: w rule: split_whitespace.induct)
  case 1
  then show ?case by simp
next
  case (2 d ds)
  show ?case
  proof (cases "is_space d")
    case True
    with 2 have "w \<in> set (split_whitespace (dropWhile is_space ds))" by auto
    from "2.IH"(1)[OF True this "2.prems"(2)] show ?thesis
      by (auto dest: set_dropWhileD)
  next
    case False
    obtain p ps where sp: "split_whitespace ds = p # ps"
      using split_whitespace_nonempty[of ds] by (cases "split_whitespace ds") auto
    from "2.prems"(1) False sp have "w = d # p \<or> w \<in> set ps" by simp
    then show ?thesis
    proof
      assume w: "w = d # p"
      show ?thesis
      proof (cases "c = d")
        case True
        then show ?thesis using False by simp
      next
        case F: False
        with w "2.prems"(2) have "c \<in> set p" by simp
        with "2.IH"(2)[OF False, of p] sp show ?thesis by simp
      qed
    next
      assume "w \<in> set ps"
      with "2.IH"(2)[OF False, of w] sp "2.prems"(2) show ?thesis by simp
    qed
  qed
qed

lemma slice0_take: "\<exists>n. slice0 xs k = take n xs"
  by (auto simp: slice0_def)

lemma strip_suffix_Some:
  "strip_suffix sufs w = Some st \<Longrightarrow> (\<exists>n\<ge>3. st = take n w \<and> n \<le> length w)"
proof (induction sufs)
  case Nil
  then show ?case by simp
next
  case (Cons suf sufs)
  show ?case
  proof (cases "endsWith w suf \<and> int (length w) - int (length suf) \<ge> 3")
    case True
    with Cons.prems have st: "st = take (length w - length suf) w"
      by (simp add: slice0_def nat_diff_distrib')
    from True have "3 \<le> length w - length suf" by linarith
    with st show ?thesis by (intro exI[of _ "length w - length suf"]) simp
  next
    case False
    with Cons show ?thesis by auto
  qed
qed

lemma simpleStem_take: "3 \<le> length w \<Longrightarrow> \<exists>n\<ge>3. simpleStem w = take n w \<and> n \<le> length w"
proof (cases "length w \<le> 4")
  case True
  assume "3 \<le> length w"
  then show ?thesis using True by (intro exI[of _ "length w"]) (simp add: simpleStem_def)
next
  case False
  show ?thesis
  proof (cases "strip_suffix suffixes w")
    case (Some st)
    with strip_suffix_Some[OF Some] False show ?thesis by (simp add: simpleStem_def)
  next
    case None
    have "\<exists>n\<ge>3. take (length w - 1) w = take n w \<and> n \<le> length w"
      using False by (intro exI[of _ "length w - 1"]) simp
    moreover have "\<exists>n\<ge>3. w = take n w \<and> n \<le> length w"
      using False by (intro exI[of _ "length w"]) simp
    moreover have "slice0 w (- 1) = take (length w - 1) w"
      using False by (simp add: slice0_def nat_diff_distrib')
    ultimately show ?thesis using None False by (simp add: simpleStem_def)
  qed
qed

lemma tokenize_tokens:
  assumes "t \<in> set (tokenize s)"
  shows "3 \<le> length t \<and> (\<forall>c\<in>set t. is_term_char c)"
proof -
  from assms obtain w where w: "w \<in> set (split_whitespace (replace_numbers (replace_punctuation (toLowerCase s))))"
    and keep: "keep_token w" and t: "t = simpleStem w"
    by (auto simp: tokenize_def)
  from keep have len: "3 \<le> length w" by (simp add: keep_token_def)
  from simpleStem_take[OF len] obtain n where n: "3 \<le> n" "t = take n w" "n \<le> length w"
    by (auto simp: t)
  have "is_term_char c" if "c \<in> set t" for c
  proof -
    from that n have "c \<in> set w" by (auto dest: in_set_takeD)
    from split_whitespace_chars[OF w this] cleaned_chars show ?thesis by blast
  qed
  with n show ?thesis by simp
qed

lemma replace_numbers_id: "\<forall>c\<in>set s. \<not> is_digit c \<Longrightarrow> replace_numbers s = s"
  by (induction s) simp_all

lemma join_space_chars:
  "c \<in> set (join_space ws) \<Longrightarrow> c = CHR '' '' \<or> (\<exists>w\<in>set ws. c \<in> set w)"
  by (induction ws rule: join_space.induct) auto

lemma clean_join:
  assumes "\<forall>w\<in>set ws. \<forall>c\<in>set w. is_term_char c"
  shows "replace_numbers (replace_punctuation (toLowerCase (join_space ws))) = join_space ws"
proof -
  have ch: "c = CHR '' '' \<or> is_term_char c" if "c \<in> set (join_space ws)" for c
    using join_space_chars[OF that] assms by auto
  have low: "toLowerCase (join_space ws) = join_space ws"
    unfolding toLowerCase_def
    by (rule map_idI) (use ch term_char_lower space_lower in auto)
  have pun: "replace_punctuation (join_space ws) = join_space ws"
    unfolding replace_punctuation_def
    by (rule map_idI) (use ch term_char_word space_is_space in auto)
  have num: "replace_numbers (join_space ws) = join_space ws"
    by (rule replace_numbers_id) (use ch term_char_not_digit space_not_digit in auto)
  show ?thesis by (simp add: low pun num)
qed

lemma split_whitespace_word:
  "\<forall>c\<in>set w. \<not> is_space c \<Longrightarrow>
   split_whitespace (w @ rest) = (w @ hd (split_whitespace rest)) # tl (split_whitespace rest)"
proof (induction w)
  case Nil
  then show ?case using split_whitespace_nonempty[of rest] by simp
next
  case (Cons c w)
  then show ?case using split_whitespace_nonempty[of "w @ rest"]
    by (auto split: list.splits)
qed

lemma split_join:
  assumes "ws \<noteq> []" "\<forall>w\<in>set ws. w \<noteq> [] \<and> (\<forall>c\<in>set w. \<not> is_space c)"
  shows "split_whitespace (join_space ws) = ws"
  using assms
proof (induction ws rule: join_space.induct)
  case 1
  then show ?case by simp
next
  case (2 w)
  then show ?case using split_whitespace_word[of w "[]"] by simp
next
  case (3 w v vs)
  let ?r = "join_space (v # vs)"
  from "3.prems" obtain d ds where v: "v = d # ds" and d: "\<not> is_space d"
    by (cases v) auto
  have "?r = d # (ds @ (case vs of [] \<Rightarrow> [] | _ \<Rightarrow> CHR '' '' # join_space vs))"
    by (cases vs) (simp_all add: v)
  then have dw: "dropWhile is_space ?r = ?r" using d by simp
  have IH: "split_whitespace ?r = v # vs" using 3 by simp
  have "split_whitespace (join_space (w # v # vs)) = split_whitespace (w @ CHR '' '' # ?r)"
    by simp
  also have "\<dots> = (w @ hd (split_whitespace (CHR '' '' # ?r))) # tl (split_whitespace (CHR '' '' # ?r))"
    using "3.prems" by (intro split_whitespace_word) simp
  also have "split_whitespace (CHR '' '' # ?r) = [] # split_whitespace ?r"
    using dw by (simp add: space_is_space)
  finally show ?case by (simp add: IH)
qed

lemma tokenize_join:
  assumes "\<forall>w\<in>set ws. w \<noteq> [] \<and> (\<forall>c\<in>set w. is_term_char c)"
  shows "tokenize (join_space ws) = map simpleStem (filter keep_token ws)"
proof (cases "ws = []")
  case True
  have "tokenize [] = []" by (simp add: tokenize_def toLowerCase_def replace_punctuation_def keep_token_def)
  then show ?thesis by (simp add: True)
next
  case False
  have cl: "replace_numbers (replace_punctuation (toLowerCase (join_space ws))) = join_space ws"
    using assms by (intro clean_join) simp
  have sp: "split_whitespace (join_space ws) = ws"
    using False assms term_char_not_space by (intro split_join) auto
  show ?thesis by (simp add: tokenize_def cl sp)
qed

lemma tokenize_twice:
  "tokenize (join_space (tokenize s)) = map simpleStem (filter keep_token (tokenize s))"
proof (rule tokenize_join, rule ballI)
  fix w assume "w \<in> set (tokenize s)"
  from tokenize_tokens[OF this] show "w \<noteq> [] \<and> (\<forall>c\<in>set w. is_term_char c)" by auto
qed

text \<open>
  C9. The stemmer strips one suffix in one pass, so a stem can have a suffix of its own,
  and a stem can be a stop word: tokenizing the tokens of \<^verbatim>\<open>hopefully\<close> again gives
  \<^verbatim>\<open>hope\<close>, not \<^verbatim>\<open>hopeful\<close>.
\<close>

theorem tokenize_not_idempotent_counterexample:
  "tokenize ''hopefully'' = [''hopeful'']
   \<and> tokenize (join_space (tokenize ''hopefully'')) = [''hope'']
   \<and> tokenize (join_space (tokenize ''hopefully'')) \<noteq> tokenize ''hopefully''"
proof -
  have a: "tokenize ''hopefully'' = [''hopeful'']" by code_simp
  have b: "tokenize (join_space [''hopeful'']) = [''hope'']" by code_simp
  show ?thesis unfolding a b by simp
qed

text \<open>
  C9, amended. For every text, tokenizing the joined tokens again filters and stems the
  tokens once more and does nothing else; so for every text whose tokens are no stop
  words and are left as they are by \<^verbatim>\<open>simpleStem\<close>, joining the tokens with spaces
  and tokenizing again yields the same token sequence.
\<close>

theorem tokenize_fixed_point:
  assumes "\<forall>t\<in>set (tokenize s). t \<notin> set STOP_WORDS \<and> simpleStem t = t"
  shows "tokenize (join_space (tokenize s)) = tokenize s"
proof -
  have keep: "filter keep_token (tokenize s) = tokenize s"
    unfolding filter_id_conv keep_token_def
  proof
    fix t assume t: "t \<in> set (tokenize s)"
    from tokenize_tokens[OF t] have "2 < length t" by simp
    with assms t show "2 < length t \<and> t \<notin> set STOP_WORDS" by simp
  qed
  have "map simpleStem (tokenize s) = tokenize s"
    by (rule map_idI) (use assms in auto)
  then show ?thesis by (simp add: tokenize_twice keep)
qed

theorem tokenize_fixed_point_witness:
  "tokenize ''Hello, big World 42!'' = [''hello'', ''big'', ''world'']
   \<and> tokenize (join_space (tokenize ''Hello, big World 42!'')) = tokenize ''Hello, big World 42!''"
proof -
  have tk: "tokenize ''Hello, big World 42!'' = [''hello'', ''big'', ''world'']"
    by code_simp
  have st: "simpleStem ''hello'' = ''hello''" "simpleStem ''big'' = ''big''"
    "simpleStem ''world'' = ''world''"
    by code_simp+
  have sw: "''hello'' \<notin> set STOP_WORDS" "''big'' \<notin> set STOP_WORDS" "''world'' \<notin> set STOP_WORDS"
    by code_simp+
  show ?thesis
    using tokenize_fixed_point[of "''Hello, big World 42!''"] by (simp add: tk st sw)
qed

subsection \<open>Loading a snapshot\<close>

lemma restoreTfMaps_completed:
  "snd (restoreTfMaps tfEntries m) = list_all (\<lambda>(p, tf). tf \<noteq> Nullish) tfEntries"
  by (induction tfEntries m rule: restoreTfMaps.induct) simp_all

lemma restoreTfMaps_completedD:
  "restoreTfMaps tfEntries m = (tfs, completed) \<Longrightarrow>
   completed = list_all (\<lambda>(p, tf). tf \<noteq> Nullish) tfEntries"
  using restoreTfMaps_completed[of tfEntries m] by simp

lemma loadIndex_result: "fst (loadIndex snapshot e) = loads snapshot"
proof (cases snapshot)
  case (Parsed data)
  show ?thesis
  proof (cases data)
    case JsonNull
    then show ?thesis by (simp add: Parsed loadIndex_def)
  next
    case (NoteIndex tfv idfv)
    show ?thesis
      by (cases tfv; cases idfv)
        (auto simp: Parsed NoteIndex loadIndex_def Let_def split: prod.splits
          dest: restoreTfMaps_completedD)
  qed
qed (simp_all add: loadIndex_def)

lemma loadIndex_failed:
  assumes "\<not> fst (loadIndex snapshot e)"
  shows "idf (snd (loadIndex snapshot e)) = idf e
       \<and> tfidfVectors (snd (loadIndex snapshot e)) = tfidfVectors e
       \<and> indexReady (snd (loadIndex snapshot e)) = indexReady e"
proof (cases snapshot)
  case (Parsed data)
  show ?thesis
  proof (cases data)
    case JsonNull
    then show ?thesis by (simp add: Parsed loadIndex_def)
  next
    case (NoteIndex tfv idfv)
    show ?thesis
      using assms
      by (cases tfv; cases idfv)
        (auto simp: Parsed NoteIndex loadIndex_def Let_def split: prod.splits)
  qed
qed (simp_all add: loadIndex_def)

lemma loadIndex_ready:
  "indexReady (snd (loadIndex snapshot e)) = (indexReady e \<or> loads snapshot)"
proof (cases "loads snapshot")
  case True
  then obtain tfEntries idfEntries
    where s: "snapshot = Parsed (NoteIndex (Entries tfEntries) (Entries idfEntries))"
    by (elim loads.elims) auto
  from True have "snd (restoreTfMaps tfEntries []) = True"
    by (simp add: restoreTfMaps_completed s)
  then show ?thesis using True
    by (auto simp: s loadIndex_def Let_def split: prod.splits)
next
  case False
  then have "\<not> fst (loadIndex snapshot e)" by (simp add: loadIndex_result)
  from loadIndex_failed[OF this] False show ?thesis by simp
qed




subsection \<open>Readiness\<close>

lemma buildTfMaps_completed: "snd (buildTfMaps docs m) = reads_succeed docs"
  by (induction docs m rule: buildTfMaps.induct) (simp_all add: reads_succeed_def)

lemma buildTfMaps_completedD:
  "buildTfMaps docs m = (tfs, completed) \<Longrightarrow> completed = reads_succeed docs"
  using buildTfMaps_completed[of docs m] by simp

lemma indexVault_ready:
  "indexReady (snd (indexVault docs e)) = (indexReady e \<or> (docs \<noteq> [] \<and> reads_succeed docs))"
  by (auto simp: indexVault_def Let_def split: prod.splits dest: buildTfMaps_completedD)

lemma apply_operation_ready:
  "isReady (apply_operation operation e) = (isReady e \<or> makes_ready operation)"
  by (cases operation)
    (auto simp: isReady_def indexVault_ready indexNote_def removeNote_def Let_def loadIndex_ready)

lemma fold_ready:
  "isReady (fold apply_operation ops e) = (isReady e \<or> list_ex makes_ready ops)"
  by (induction ops arbitrary: e) (auto simp: apply_operation_ready)

text \<open>
  C5. \<^verbatim>\<open>loadIndex\<close> makes an engine ready without any build: a new engine that loads
  the snapshot \<^verbatim>\<open>{"tfMaps": {}, "idf": {}}\<close> is ready.
\<close>

theorem ready_without_build_counterexample:
  "\<not> isReady new_engine
   \<and> isReady (apply_operation (LoadIndex (Parsed (NoteIndex (Entries []) (Entries [])))) new_engine)"
  by (simp add: isReady_def new_engine_def loadIndex_def buildVectors_def new_Map_def)

text \<open>
  C5, amended. \<^verbatim>\<open>isReady()\<close> becomes true only through a successful full build or a
  successful load of a snapshot: an operation that takes an engine from unbuilt to ready
  is a full build over at least one document whose reads all succeed or a
  \<^verbatim>\<open>loadIndex\<close> that loads its snapshot; a build over zero documents leaves an unbuilt
  engine unbuilt; once ready the engine stays ready, across upserts and removals as
  across every other operation; and an engine that is ready after a run of operations
  from a new engine has been through such a build or such a load.
\<close>

theorem ready_only_by_build_or_load:
  "(\<not> isReady e \<and> isReady (apply_operation operation e) \<longrightarrow> makes_ready operation)
   \<and> (\<not> isReady e \<longrightarrow> \<not> isReady (apply_operation (IndexVault []) e))
   \<and> (isReady e \<longrightarrow> isReady (apply_operation operation e))
   \<and> (isReady (run ops) \<longrightarrow> list_ex makes_ready ops)"
proof -
  have "\<not> isReady new_engine" by (simp add: isReady_def new_engine_def)
  then have "isReady (run ops) = list_ex makes_ready ops"
    by (simp add: run_def fold_ready)
  then show ?thesis
    using apply_operation_ready[of operation e] apply_operation_ready[of "IndexVault []" e]
    by auto
qed

theorem ready_only_by_build_or_load_witness:
  "\<not> isReady new_engine
   \<and> isReady (apply_operation (IndexVault [(''a.md'', Some ''apple'')]) new_engine)
   \<and> makes_ready (IndexVault [(''a.md'', Some ''apple'')])
   \<and> \<not> isReady (apply_operation (IndexVault []) new_engine)
   \<and> \<not> isReady (apply_operation (IndexVault [(''a.md'', Some ''apple''), (''b.md'', None)]) new_engine)
   \<and> isReady (apply_operation (RemoveNote ''a.md'')
        (apply_operation (IndexVault [(''a.md'', Some ''apple'')]) new_engine))
   \<and> \<not> isReady (run [IndexNote ''a.md'' ''apple'', RemoveNote ''a.md'', LoadIndex NoFile])"
  using ready_only_by_build_or_load[of new_engine "IndexVault [(''a.md'', Some ''apple'')]"
      "[IndexNote ''a.md'' ''apple'', RemoveNote ''a.md'', LoadIndex NoFile]"]
    ready_only_by_build_or_load[of new_engine
      "IndexVault [(''a.md'', Some ''apple''), (''b.md'', None)]" "[]"]
    ready_only_by_build_or_load[of
      "apply_operation (IndexVault [(''a.md'', Some ''apple'')]) new_engine" "RemoveNote ''a.md''" "[]"]
  by (simp add: isReady_def new_engine_def indexVault_ready reads_succeed_def)

subsection \<open>The keys of the index and the age of the IDF table\<close>

lemma fold_map_set_keys:
  "distinct (map fst xs) \<Longrightarrow> set (map fst acc) \<inter> set (map fst xs) = {} \<Longrightarrow>
   map fst (fold (\<lambda>(p, x) m. map_set m p (g x)) xs acc) = map fst acc @ map fst xs"
proof (induction xs arbitrary: acc)
  case Nil
  show ?case by simp
next
  case (Cons a xs)
  obtain p x where a: "a = (p, x)" by (cases a)
  from Cons.prems have p: "p \<notin> set (map fst acc)" "p \<notin> set (map fst xs)" by (auto simp: a)
  have keys: "map fst (map_set acc p (g x)) = map fst acc @ [p]"
    using p(1) by (simp add: keys_map_set)
  have "map fst (fold (\<lambda>(p, x) m. map_set m p (g x)) xs (map_set acc p (g x)))
        = map fst (map_set acc p (g x)) @ map fst xs"
    using Cons.prems p by (intro Cons.IH) (auto simp: keys a)
  then show ?case by (simp add: a keys)
qed

lemma buildVectors_keys: "wf_map tfs \<Longrightarrow> map fst (buildVectors tfs table) = map fst tfs"
  unfolding buildVectors_def wf_map_def
  using fold_map_set_keys[of tfs "[]" "\<lambda>tf. computeTFIDF tf table"] by simp

lemma fold_map_set_wf:
  "wf_map acc \<Longrightarrow> wf_map (fold (\<lambda>(p, x) m. map_set m p (g p x)) xs acc)"
  by (induction xs arbitrary: acc) (auto simp: wf_map_set)

lemma new_Map_wf: "wf_map (new_Map entries)"
  unfolding new_Map_def using fold_map_set_wf[of "[]" "\<lambda>p x. x" entries]
  by (simp add: wf_map_def)

lemma restoreTfMaps_wf: "wf_map m \<Longrightarrow> wf_map (fst (restoreTfMaps tfEntries m))"
  by (induction tfEntries m rule: restoreTfMaps.induct) (simp_all add: wf_map_set)

lemma buildTfMaps_wf: "wf_map m \<Longrightarrow> wf_map (fst (buildTfMaps docs m))"
  by (induction docs m rule: buildTfMaps.induct) (simp_all add: wf_map_set)

lemma indexVault_completed:
  assumes "docs \<noteq> []" "reads_succeed docs"
  shows "\<exists>tfs. wf_map tfs \<and> buildTfMaps docs [] = (tfs, True)
           \<and> snd (indexVault docs e)
              = e\<lparr>tfMaps := tfs, idf := computeIDF (map_values tfs),
                  tfidfVectors := buildVectors tfs (computeIDF (map_values tfs)),
                  indexReady := True\<rparr>"
proof -
  obtain tfs completed where r: "buildTfMaps docs [] = (tfs, completed)"
    by (cases "buildTfMaps docs []")
  have c: "completed" using buildTfMaps_completedD[OF r] assms(2) by simp
  have wf: "wf_map tfs" using buildTfMaps_wf[of "[]" docs] r by (simp add: wf_map_def)
  show ?thesis using assms(1) wf r c by (simp add: indexVault_def Let_def)
qed

lemma indexVault_keys_completed:
  assumes "docs \<noteq> []" "reads_succeed docs"
  shows "map fst (tfMaps (snd (indexVault docs e))) = map fst (tfidfVectors (snd (indexVault docs e)))"
proof -
  from indexVault_completed[OF assms, of e] obtain tfs where "wf_map tfs"
    and "snd (indexVault docs e)
              = e\<lparr>tfMaps := tfs, idf := computeIDF (map_values tfs),
                  tfidfVectors := buildVectors tfs (computeIDF (map_values tfs)),
                  indexReady := True\<rparr>"
    by blast
  then show ?thesis by (simp add: buildVectors_keys)
qed

lemma indexVault_idf_completed:
  assumes "docs \<noteq> []" "reads_succeed docs"
  shows "idf (snd (indexVault docs e)) = computeIDF (map_values (tfMaps (snd (indexVault docs e))))"
proof -
  from indexVault_completed[OF assms, of e] obtain tfs where
    "snd (indexVault docs e)
              = e\<lparr>tfMaps := tfs, idf := computeIDF (map_values tfs),
                  tfidfVectors := buildVectors tfs (computeIDF (map_values tfs)),
                  indexReady := True\<rparr>"
    by blast
  then show ?thesis by simp
qed

lemma indexVault_nothing: "snd (indexVault [] e) = e"
  by (simp add: indexVault_def)

lemma indexNote_keys:
  "map fst (tfMaps e) = map fst (tfidfVectors e) \<Longrightarrow>
   map fst (tfMaps (indexNote p content e)) = map fst (tfidfVectors (indexNote p content e))"
  by (simp add: indexNote_def Let_def keys_map_set)

lemma removeNote_keys:
  "map fst (tfMaps e) = map fst (tfidfVectors e) \<Longrightarrow>
   map fst (tfMaps (removeNote p e)) = map fst (tfidfVectors (removeNote p e))"
  by (simp add: removeNote_def map_delete_def delete_keys)

lemma loadIndex_keys_loaded:
  assumes "loads snapshot"
  shows "map fst (tfMaps (snd (loadIndex snapshot e)))
           = map fst (tfidfVectors (snd (loadIndex snapshot e)))"
proof -
  from assms obtain tfEntries idfEntries
    where s: "snapshot = Parsed (NoteIndex (Entries tfEntries) (Entries idfEntries))"
      and ok: "list_all (\<lambda>(p, tf). tf \<noteq> Nullish) tfEntries"
    by (elim loads.elims) auto
  obtain tfs completed where r: "restoreTfMaps tfEntries [] = (tfs, completed)"
    by (cases "restoreTfMaps tfEntries []")
  have c: "completed" using restoreTfMaps_completedD[OF r] ok by simp
  have "wf_map tfs" using restoreTfMaps_wf[of "[]" tfEntries] r by (simp add: wf_map_def)
  then show ?thesis by (simp add: s loadIndex_def r c Let_def buildVectors_keys)
qed

lemma loadIndex_unparsed:
  "\<not> loads snapshot \<Longrightarrow> \<not> breaks_off snapshot \<Longrightarrow> snd (loadIndex snapshot e) = e"
  by (cases snapshot) (simp_all add: loadIndex_def breaks_off_def)

lemma keys_kept:
  assumes "map fst (tfMaps e) = map fst (tfidfVectors e)"
    and "\<not> writes_tf_only operation"
  shows "map fst (tfMaps (apply_operation operation e))
           = map fst (tfidfVectors (apply_operation operation e))"
proof (cases operation)
  case (IndexVault docs)
  with assms show ?thesis
    by (cases "docs = []") (simp_all add: indexVault_nothing indexVault_keys_completed)
next
  case (IndexNote p content)
  with assms show ?thesis by (simp add: indexNote_keys)
next
  case (RemoveNote p)
  with assms show ?thesis by (simp add: removeNote_keys)
next
  case (LoadIndex snapshot)
  with assms show ?thesis
    by (cases "loads snapshot") (simp_all add: loadIndex_keys_loaded loadIndex_unparsed)
qed

lemma keys_written:
  "makes_ready operation \<Longrightarrow>
   map fst (tfMaps (apply_operation operation e))
     = map fst (tfidfVectors (apply_operation operation e))"
  by (cases operation) (simp_all add: indexVault_keys_completed loadIndex_keys_loaded)

lemma keys_known_sound:
  "known \<longrightarrow> map fst (tfMaps e) = map fst (tfidfVectors e) \<Longrightarrow> keys_known ops e known \<Longrightarrow>
   map fst (tfMaps (fold apply_operation ops e))
     = map fst (tfidfVectors (fold apply_operation ops e))"
proof (induction ops arbitrary: e known)
  case Nil
  then show ?case by simp
next
  case (Cons operation ops)
  let ?e = "apply_operation operation e"
  have "makes_ready operation
        \<or> (if writes_tf_only operation
            then map_keys (tfMaps ?e) = map_keys (tfidfVectors ?e) else known)
        \<longrightarrow> map fst (tfMaps ?e) = map fst (tfidfVectors ?e)"
    using keys_written[of operation e] keys_kept[of e operation] Cons.prems(1)
    by (auto simp: map_keys_def)
  from Cons.IH[OF this] Cons.prems(2) show ?case by simp
qed

lemma removeNote_absent:
  "p \<notin> set (map_keys (tfMaps e)) \<Longrightarrow>
   tfMaps (removeNote p e) = tfMaps e \<and> idf (removeNote p e) = idf e"
  by (simp add: removeNote_def map_delete_def map_keys_def)

lemma recomputes_sound:
  "recomputes operation e \<Longrightarrow>
   idf (apply_operation operation e)
     = computeIDF (map_values (tfMaps (apply_operation operation e)))"
  by (cases operation) (auto simp: indexVault_idf_completed isReady_def indexNote_def Let_def)

lemma leaves_index_sound:
  "leaves_index operation e \<Longrightarrow>
   tfMaps (apply_operation operation e) = tfMaps e \<and> idf (apply_operation operation e) = idf e"
  by (cases operation)
    (auto simp: indexVault_nothing isReady_def indexNote_def removeNote_absent loadIndex_unparsed)

lemma idf_known_sound:
  "known \<longrightarrow> idf e = computeIDF (map_values (tfMaps e)) \<Longrightarrow> idf_known ops e known \<Longrightarrow>
   idf (fold apply_operation ops e)
     = computeIDF (map_values (tfMaps (fold apply_operation ops e)))"
proof (induction ops arbitrary: e known)
  case Nil
  then show ?case by simp
next
  case (Cons operation ops)
  let ?e = "apply_operation operation e"
  have "recomputes operation e
        \<or> (if leaves_index operation e then known
            else idf ?e = computeIDF (map_values (tfMaps ?e)))
        \<longrightarrow> idf ?e = computeIDF (map_values (tfMaps ?e))"
    using recomputes_sound[of operation e] leaves_index_sound[of operation e] Cons.prems(1)
    by auto
  from Cons.IH[OF this] Cons.prems(2) show ?case by simp
qed

lemma tokenize_fruits:
  "tokenize ''apple'' = [''apple'']" "tokenize ''banana'' = [''banana'']"
  "tokenize ''cherry'' = [''cherry'']"
  by code_simp+

lemmas engine_eval =
  run_def new_engine_def indexVault_def indexNote_def removeNote_def buildVectors_def
  computeTF_def countTokens_def increment_def computeIDF_def countDocs_def computeTFIDF_def
  map_set_def map_get_def map_delete_def map_keys_def map_values_def get_or_zero_def

text \<open>
  C3. \<^verbatim>\<open>removeNote\<close> deletes the two vectors of the document and leaves the IDF table
  as it is: after a build over three documents and the removal of the third, the table
  still has the term of the removed document, which the IDF computed from the two
  remaining TF maps does not have. And the TF maps can have a document that has no
  TF-IDF vector: a \<^verbatim>\<open>loadIndex\<close> of a snapshot without \<^verbatim>\<open>idf\<close> raises after it has
  restored the TF maps, and a build whose second read is rejected ends after it has
  stored the TF map of the first file.
\<close>

theorem index_invariant_counterexample:
  "map_keys (idf (run [IndexVault [(''a.md'', Some ''apple''), (''b.md'', Some ''banana''),
                                   (''c.md'', Some ''cherry'')],
                       RemoveNote ''c.md'']))
     = [''apple'', ''banana'', ''cherry'']
   \<and> map_keys (computeIDF (map_values (tfMaps
        (run [IndexVault [(''a.md'', Some ''apple''), (''b.md'', Some ''banana''),
                          (''c.md'', Some ''cherry'')],
              RemoveNote ''c.md'']))))
     = [''apple'', ''banana'']
   \<and> map_keys (tfMaps (run [LoadIndex (Parsed (NoteIndex (Entries [(''x.md'', Entries [])]) Nullish))]))
     = [''x.md'']
   \<and> map_keys (tfidfVectors
        (run [LoadIndex (Parsed (NoteIndex (Entries [(''x.md'', Entries [])]) Nullish))]))
     = []
   \<and> map_keys (tfMaps (run [IndexVault [(''a.md'', Some ''apple''), (''b.md'', None)]]))
     = [''a.md'']
   \<and> map_keys (tfidfVectors (run [IndexVault [(''a.md'', Some ''apple''), (''b.md'', None)]]))
     = []"
  by (simp add: engine_eval tokenize_fruits loadIndex_def new_Map_def)

text \<open>
  C3, amended. After every sequence of index operations (full build, single-document
  upsert, remove, restore) in which every build that a rejected read has ended and every
  restore that has raised on a parsed snapshot has left the TF-vector set with the
  identifiers of the TF-IDF vectors, or is followed by a build over at least one document
  that completes or by a restore that loads, every document identifier present in the
  TF-vector set has a TF-IDF vector: the two maps have the same identifiers, in the same
  order. After every sequence in which every removal of an indexed document, every
  build that a rejected read has ended and every restore of a parsed snapshot has left
  the IDF table equal to the IDF of the TF-vector set, or is followed by a build over at
  least one document that completes or by an upsert on a ready engine, the IDF table
  equals the IDF computed from scratch over exactly the current TF-vector set.
\<close>

theorem index_settled:
  "(keys_settled ops \<longrightarrow>
      map_keys (tfMaps (run ops)) = map_keys (tfidfVectors (run ops)))
   \<and> (idf_settled ops \<longrightarrow>
      idf (run ops) = computeIDF (map_values (tfMaps (run ops))))"
proof -
  have k: "True \<longrightarrow> map fst (tfMaps new_engine) = map fst (tfidfVectors new_engine)"
    by (simp add: new_engine_def)
  have i: "True \<longrightarrow> idf new_engine = computeIDF (map_values (tfMaps new_engine))"
    by (simp add: new_engine_def computeIDF_def map_values_def)
  show ?thesis
    using keys_known_sound[OF k, of ops] idf_known_sound[OF i, of ops]
    by (simp add: run_def keys_settled_def idf_settled_def map_keys_def)
qed

theorem index_settled_witness:
  "keys_settled [LoadIndex (Parsed (NoteIndex (Entries [(''x.md'', Entries [])]) Nullish)),
                 IndexVault [(''a.md'', Some ''apple''), (''b.md'', Some ''banana'')],
                 IndexNote ''c.md'' ''cherry'', RemoveNote ''a.md'']
   \<and> map_keys (tfMaps
        (run [LoadIndex (Parsed (NoteIndex (Entries [(''x.md'', Entries [])]) Nullish)),
              IndexVault [(''a.md'', Some ''apple''), (''b.md'', Some ''banana'')],
              IndexNote ''c.md'' ''cherry'', RemoveNote ''a.md'']))
     = [''b.md'', ''c.md'']
   \<and> map_keys (tfidfVectors
        (run [LoadIndex (Parsed (NoteIndex (Entries [(''x.md'', Entries [])]) Nullish)),
              IndexVault [(''a.md'', Some ''apple''), (''b.md'', Some ''banana'')],
              IndexNote ''c.md'' ''cherry'', RemoveNote ''a.md'']))
     = [''b.md'', ''c.md'']
   \<and> idf_settled [IndexVault [(''a.md'', Some ''apple''), (''b.md'', Some ''banana''),
                               (''c.md'', Some ''cherry'')],
                   RemoveNote ''c.md'', IndexNote ''a.md'' ''apple'', RemoveNote ''x.png'',
                LoadIndex NoFile]
   \<and> idf (run [IndexVault [(''a.md'', Some ''apple''), (''b.md'', Some ''banana''),
                            (''c.md'', Some ''cherry'')],
                RemoveNote ''c.md'', IndexNote ''a.md'' ''apple'', RemoveNote ''x.png'',
                LoadIndex NoFile])
     = computeIDF (map_values (tfMaps
         (run [IndexVault [(''a.md'', Some ''apple''), (''b.md'', Some ''banana''),
                           (''c.md'', Some ''cherry'')],
               RemoveNote ''c.md'', IndexNote ''a.md'' ''apple'', RemoveNote ''x.png'',
                LoadIndex NoFile])))
   \<and> map_keys (idf (run [IndexVault [(''a.md'', Some ''apple''), (''b.md'', Some ''banana''),
                            (''c.md'', Some ''cherry'')],
                RemoveNote ''c.md'', IndexNote ''a.md'' ''apple'', RemoveNote ''x.png'',
                LoadIndex NoFile]))
     = [''apple'', ''banana'']"
proof -
  let ?ops1 = "[LoadIndex (Parsed (NoteIndex (Entries [(''x.md'', Entries [])]) Nullish)),
                 IndexVault [(''a.md'', Some ''apple''), (''b.md'', Some ''banana'')],
                 IndexNote ''c.md'' ''cherry'', RemoveNote ''a.md'']"
  let ?ops2 = "[IndexVault [(''a.md'', Some ''apple''), (''b.md'', Some ''banana''),
                               (''c.md'', Some ''cherry'')],
                   RemoveNote ''c.md'', IndexNote ''a.md'' ''apple'', RemoveNote ''x.png'',
                LoadIndex NoFile]"
  have s1: "keys_settled ?ops1"
    by (simp add: keys_settled_def reads_succeed_def breaks_off_def)
  have s2: "idf_settled ?ops2"
    by (simp add: idf_settled_def reads_succeed_def breaks_off_def isReady_def engine_eval
        tokenize_fruits)
  have k1: "map_keys (tfMaps (run ?ops1)) = [''b.md'', ''c.md'']"
    by (simp add: engine_eval tokenize_fruits loadIndex_def new_Map_def)
  have k2: "map_keys (idf (run ?ops2)) = [''apple'', ''banana'']"
    by (simp add: engine_eval tokenize_fruits loadIndex_def)
  show ?thesis
    using index_settled[of ?ops1] index_settled[of ?ops2] s1 s2 k1 k2 by simp
qed

subsection \<open>Removing a document and adding it again\<close>

lemma delete_append_filter:
  "distinct (map fst m) \<Longrightarrow> map_of m p = Some v \<Longrightarrow>
   length (filter P (map snd (AList.delete p m @ [(p, v)]))) = length (filter P (map snd m))"
proof (induction m)
  case Nil
  then show ?case by simp
next
  case (Cons a m)
  obtain q x where a: "a = (q, x)" by (cases a)
  show ?case
  proof (cases "q = p")
    case True
    with Cons.prems have "x = v" "p \<notin> fst ` set m" by (auto simp: a)
    then show ?thesis by (simp add: a True)
  next
    case False
    with Cons show ?thesis by (simp add: a)
  qed
qed

lemma delete_append_length:
  "distinct (map fst m) \<Longrightarrow> map_of m p = Some v \<Longrightarrow>
   length (AList.delete p m @ [(p, v)]) = length m"
  using delete_append_filter[of m p v "\<lambda>_. True"] by simp

lemma map_set_after_delete: "map_set (map_delete m p) p v = AList.delete p m @ [(p, v)]"
  unfolding map_delete_def by (rule map_set_fresh) (simp add: delete_notin_dom)

lemma computeTFIDF_cong:
  assumes "\<And>t. map_get table1 t = map_get table2 t"
  shows "computeTFIDF tf table1 = computeTFIDF tf table2"
  unfolding computeTFIDF_def by (simp add: get_or_zero_def assms)

lemma remove_then_index:
  assumes ready: "indexReady e" and wf: "wf_engine e" and utd: "up_to_date e p"
    and tf: "map_get (tfMaps e) p = Some (computeTF (tokenize content))"
  shows "map_get (tfidfVectors (indexNote p content (removeNote p e))) p
           = map_get (tfidfVectors e) p"
    and "map_get (idf (indexNote p content (removeNote p e))) t = map_get (idf e) t"
proof -
  let ?tf = "computeTF (tokenize content)"
  let ?m = "tfMaps e"
  let ?m' = "AList.delete p ?m @ [(p, ?tf)]"
  let ?d' = "map snd (AList.delete p ?m) @ [?tf]"
  have dist: "distinct (map fst ?m)" using wf by (simp add: wf_engine_def wf_map_def)
  have get: "map_of ?m p = Some ?tf" using tf by (simp add: map_get_def)
  have wfs: "\<forall>d\<in>set (map snd ?m). wf_map d"
    using wf by (simp add: wf_engine_def list_all_iff map_values_def)
  have "(p, ?tf) \<in> set ?m" using get by (rule map_of_SomeD)
  then have "?tf \<in> set (map snd ?m)" by force
  then have wfs': "\<forall>d\<in>set ?d'. wf_map d"
    using wfs by (auto simp: AList.delete_eq)
  have d': "map snd ?m' = ?d'" by simp
  have len: "length ?d' = length (map snd ?m)"
    using delete_append_length[OF dist get] by simp
  have df: "df_of ?d' u = df_of (map snd ?m) u" for u
    unfolding df_of_def d'[symmetric] by (rule delete_append_filter[OF dist get])
  have table: "map_get (computeIDF ?d') u = map_get (idf e) u" for u
  proof -
    have "idf e = computeIDF (map snd ?m)" using utd by (simp add: up_to_date_def map_values_def)
    then have "map_get (idf e) u = map_get (computeIDF (map snd ?m)) u" by simp
    also have "\<dots> = map_get (computeIDF ?d') u"
      unfolding computeIDF_get[OF wfs'] computeIDF_get[OF wfs] df len ..
    finally show ?thesis by simp
  qed
  have e': "indexNote p content (removeNote p e)
      = e\<lparr>tfMaps := ?m', idf := computeIDF ?d',
           tfidfVectors := map_set (map_delete (tfidfVectors e) p) p
                             (computeTFIDF ?tf (computeIDF ?d'))\<rparr>"
    using ready by (simp add: indexNote_def removeNote_def Let_def map_set_after_delete map_values_def)
  show "map_get (idf (indexNote p content (removeNote p e))) t = map_get (idf e) t"
    unfolding e' using table[of t] by simp
  have "computeTFIDF ?tf (computeIDF ?d') = computeTFIDF ?tf (idf e)"
    by (rule computeTFIDF_cong) (rule table)
  moreover have "map_get (tfidfVectors e) p = Some (computeTFIDF ?tf (idf e))"
    using utd tf by (simp add: up_to_date_def)
  ultimately show "map_get (tfidfVectors (indexNote p content (removeNote p e))) p
           = map_get (tfidfVectors e) p"
    unfolding e' by (simp add: map_get_set)
qed

lemma three_fruits:
  "snd (indexVault [(''a.md'', Some ''apple''), (''b.md'', Some ''banana''),
          (''c.md'', Some ''cherry'')] new_engine)
   = \<lparr>tfMaps = [(''a.md'', [(''apple'', 1)]), (''b.md'', [(''banana'', 1)]),
                (''c.md'', [(''cherry'', 1)])],
      idf = [(''apple'', ln (3 / 2)), (''banana'', ln (3 / 2)), (''cherry'', ln (3 / 2))],
      tfidfVectors = [(''a.md'', [(''apple'', ln (3 / 2))]), (''b.md'', [(''banana'', ln (3 / 2))]),
                      (''c.md'', [(''cherry'', ln (3 / 2))])],
      indexReady = True\<rparr>"
  by (simp add: engine_eval tokenize_fruits)

text \<open>
  C2. The IDF table of a ready index can be older than its TF maps. After a build over
  three documents and the removal of the third, the vector of the first still has the
  weight \<open>ln (3 / 2)\<close> of its term; removing the first document and adding it again
  with the same text computes the table over two documents, where the term has the IDF
  \<open>ln (2 / 2) = 0\<close>, and the vector is empty.
\<close>

theorem remove_add_stale_counterexample:
  "indexReady (run [IndexVault [(''a.md'', Some ''apple''), (''b.md'', Some ''banana''),
          (''c.md'', Some ''cherry'')],
                    RemoveNote ''c.md''])
   \<and> map_get (tfMaps (run [IndexVault [(''a.md'', Some ''apple''), (''b.md'', Some ''banana''),
          (''c.md'', Some ''cherry'')],
                    RemoveNote ''c.md''])) ''a.md'' = Some (computeTF (tokenize ''apple''))
   \<and> map_get (tfidfVectors (run [IndexVault [(''a.md'', Some ''apple''), (''b.md'', Some ''banana''),
          (''c.md'', Some ''cherry'')],
                    RemoveNote ''c.md''])) ''a.md'' = Some [(''apple'', ln (3 / 2))]
   \<and> map_get (tfidfVectors (indexNote ''a.md'' ''apple'' (removeNote ''a.md''
          (run [IndexVault [(''a.md'', Some ''apple''), (''b.md'', Some ''banana''),
          (''c.md'', Some ''cherry'')],
                    RemoveNote ''c.md'']))))  ''a.md'' = Some []
   \<and> [(''apple'', ln (3 / 2))] \<noteq> ([] :: vec)"
  by (simp add: engine_eval tokenize_fruits)

text \<open>
  C2, amended. For every ready index that is up to date for an indexed document (the IDF
  table is the IDF of the current TF maps and the vector of the document is the one of
  its TF map against that table, as directly after a full build), removing the document
  and adding it again with the text it was indexed with yields the TF-IDF vector it had
  before the removal, and an IDF table with the entries of the table before the removal.
\<close>

theorem remove_add_round_trip:
  assumes "indexReady e" and "wf_engine e" and "up_to_date e p"
    and "map_get (tfMaps e) p = Some (computeTF (tokenize content))"
  shows "map_get (tfidfVectors (indexNote p content (removeNote p e))) p
           = map_get (tfidfVectors e) p
         \<and> (\<forall>t. map_get (idf (indexNote p content (removeNote p e))) t = map_get (idf e) t)"
  using remove_then_index[OF assms] by simp

theorem remove_add_round_trip_witness:
  "map_get (tfidfVectors (indexNote ''a.md'' ''apple'' (removeNote ''a.md''
      (snd (indexVault [(''a.md'', Some ''apple''), (''b.md'', Some ''banana''),
          (''c.md'', Some ''cherry'')] new_engine)))))
      ''a.md''
     = Some [(''apple'', ln (3 / 2))]
   \<and> map_get (idf (indexNote ''a.md'' ''apple'' (removeNote ''a.md''
      (snd (indexVault [(''a.md'', Some ''apple''), (''b.md'', Some ''banana''),
          (''c.md'', Some ''cherry'')] new_engine)))))
      ''cherry''
     = Some (ln (3 / 2))"
proof -
  let ?e = "snd (indexVault [(''a.md'', Some ''apple''), (''b.md'', Some ''banana''),
          (''c.md'', Some ''cherry'')] new_engine)"
  have ready: "indexReady ?e" by (simp add: three_fruits)
  have wf: "wf_engine ?e" by (simp add: three_fruits wf_engine_def wf_map_def map_values_def)
  have tf: "map_get (tfMaps ?e) ''a.md'' = Some (computeTF (tokenize ''apple''))"
    by (simp add: three_fruits tokenize_fruits map_get_def computeTF_def countTokens_def
        increment_def map_set_def get_or_zero_def)
  have "idf ?e = computeIDF (map_values (tfMaps ?e))"
    by (rule indexVault_idf_completed) (simp_all add: reads_succeed_def)
  then have utd: "up_to_date ?e ''a.md''"
    unfolding up_to_date_def tf by (simp add: three_fruits engine_eval tokenize_fruits)
  show ?thesis
    using remove_add_round_trip[OF ready wf utd tf]
    by (simp add: three_fruits map_get_def)
qed

subsection \<open>The maps of a reachable engine hold no key twice\<close>

lemma computeTF_wf: "wf_map (computeTF tokens)"
proof -
  have "wf_map (countTokens tokens [])"
    unfolding countTokens_def by (rule inner_wf) (simp add: wf_map_def)
  then show ?thesis
    by (simp add: computeTF_def wf_map_def comp_def case_prod_unfold)
qed

lemma values_map_set: "(k', v') \<in> set (map_set m k v) \<Longrightarrow> v' = v \<or> (k', v') \<in> set m"
  by (induction m) (auto simp: map_set_def split: if_splits)

lemma values_map_delete: "(k', v') \<in> set (map_delete m k) \<Longrightarrow> (k', v') \<in> set m"
  by (auto simp: map_delete_def AList.delete_eq)

lemma restoreTfMaps_values:
  "\<forall>v\<in>set (map snd m). wf_map v \<Longrightarrow>
   \<forall>v\<in>set (map snd (fst (restoreTfMaps tfEntries m))). wf_map v"
proof (induction tfEntries m rule: restoreTfMaps.induct)
  case (3 filePath tf rest m)
  have "\<forall>v\<in>set (map snd (map_set m filePath (new_Map tf))). wf_map v"
    using "3.prems" new_Map_wf[of tf] by (auto dest!: values_map_set)
  from "3.IH"[OF this] show ?case by simp
qed simp_all

lemma buildVectors_wf: "wf_map (buildVectors tfs table)"
  unfolding buildVectors_def
  using fold_map_set_wf[of "[]" "\<lambda>p tf. computeTFIDF tf table" tfs] by (simp add: wf_map_def)

lemma buildTfMaps_values:
  "\<forall>v\<in>set (map snd m). wf_map v \<Longrightarrow>
   \<forall>v\<in>set (map snd (fst (buildTfMaps docs m))). wf_map v"
proof (induction docs m rule: buildTfMaps.induct)
  case (3 p content rest m)
  have "\<forall>v\<in>set (map snd (map_set m p (computeTF (tokenize content)))). wf_map v"
    using "3.prems" computeTF_wf[of "tokenize content"] by (auto dest!: values_map_set)
  from "3.IH"[OF this] show ?case by simp
qed simp_all

lemma wf_engine_indexVault: "wf_engine e \<Longrightarrow> wf_engine (snd (indexVault docs e))"
proof (cases "docs = []")
  case True
  assume "wf_engine e"
  then show ?thesis by (simp add: True indexVault_def)
next
  case False
  assume wf: "wf_engine e"
  obtain tfs completed where r: "buildTfMaps docs [] = (tfs, completed)"
    by (cases "buildTfMaps docs []")
  have 1: "wf_map tfs" using buildTfMaps_wf[of "[]" docs] r by (simp add: wf_map_def)
  have 2: "\<forall>v\<in>set (map snd tfs). wf_map v"
    using buildTfMaps_values[of "[]" docs] r by simp
  show ?thesis using False wf 1 2
    by (auto simp: indexVault_def r Let_def wf_engine_def buildVectors_wf list_all_iff
        map_values_def)
qed

lemma wf_engine_indexNote: "wf_engine e \<Longrightarrow> wf_engine (indexNote p content e)"
  using computeTF_wf
  by (auto simp: indexNote_def Let_def wf_engine_def wf_map_set list_all_iff map_values_def
      dest!: values_map_set)

lemma wf_engine_removeNote: "wf_engine e \<Longrightarrow> wf_engine (removeNote p e)"
  by (auto simp: removeNote_def wf_engine_def wf_map_delete list_all_iff map_values_def
      dest!: values_map_delete)

lemma wf_engine_loadIndex:
  assumes "wf_engine e"
  shows "wf_engine (snd (loadIndex snapshot e))"
proof (cases snapshot)
  case (Parsed data)
  show ?thesis
  proof (cases data)
    case JsonNull
    with assms show ?thesis by (simp add: Parsed loadIndex_def wf_engine_def wf_map_def map_values_def)
  next
    case (NoteIndex tfv idfv)
    show ?thesis
    proof (cases tfv)
      case Nullish
      with assms show ?thesis
        by (simp add: Parsed NoteIndex loadIndex_def wf_engine_def wf_map_def map_values_def)
    next
      case (Entries tfEntries)
      obtain tfs completed where r: "restoreTfMaps tfEntries [] = (tfs, completed)"
        by (cases "restoreTfMaps tfEntries []")
      have 1: "wf_map tfs" using restoreTfMaps_wf[of "[]" tfEntries] r by (simp add: wf_map_def)
      have 2: "\<forall>v\<in>set (map snd tfs). wf_map v"
        using restoreTfMaps_values[of "[]" tfEntries] r by simp
      show ?thesis using assms 1 2
        by (cases idfv)
          (auto simp: Parsed NoteIndex Entries loadIndex_def r Let_def wf_engine_def
            buildVectors_wf list_all_iff map_values_def)
    qed
  qed
qed (use assms in \<open>simp_all add: loadIndex_def\<close>)

lemma wf_engine_run: "wf_engine (run ops)"
proof -
  have "wf_engine e \<Longrightarrow> wf_engine (fold apply_operation ops e)" for e
  proof (induction ops arbitrary: e)
    case Nil
    then show ?case by simp
  next
    case (Cons operation ops)
    have "wf_engine (apply_operation operation e)"
      using Cons.prems
      by (cases operation)
        (simp_all add: wf_engine_indexVault wf_engine_indexNote wf_engine_removeNote
          wf_engine_loadIndex)
    from Cons.IH[OF this] show ?case by simp
  qed
  moreover have "wf_engine new_engine"
    by (simp add: new_engine_def wf_engine_def wf_map_def map_values_def)
  ultimately show ?thesis by (simp add: run_def)
qed

subsection \<open>Similar notes\<close>

lemma similarityScores_entries:
  "(q, sim) \<in> set (similarityScores e p sourceVector) \<Longrightarrow> q \<noteq> p \<and> sim > 0.01"
proof -
  have "\<forall>(q, sim)\<in>set (similarityScores e p sourceVector). q \<noteq> p \<and> sim > 0.01"
    unfolding similarityScores_def
  proof (rule fold_invariant, goal_cases)
    case 1
    show ?case by simp
  next
    case (2 x acc)
    obtain q' v where x: "x = (q', v)" by (cases x)
    show ?case using 2(2) by (auto simp: x Let_def)
  qed
  then show "(q, sim) \<in> set (similarityScores e p sourceVector) \<Longrightarrow> q \<noteq> p \<and> sim > 0.01"
    by auto
qed

lemma set_slice0: "set (slice0 xs n) \<subseteq> set xs"
  by (auto simp: slice0_def dest: in_set_takeD)

lemma length_slice0: "0 \<le> n \<Longrightarrow> int (length (slice0 xs n)) \<le> n"
  by (simp add: slice0_def)

lemma sorted_wrt_slice0: "sorted_wrt R xs \<Longrightarrow> sorted_wrt R (slice0 xs n)"
  by (simp add: slice0_def)

lemma getAbstractFileByPath_path: "getAbstractFileByPath a q = Some g \<Longrightarrow> path g = q"
  by (auto simp: getAbstractFileByPath_def find_Some_iff)

lemma sorted_by_similarity:
  "sorted_wrt (\<lambda>x y. snd y \<le> snd x) (sort_key (\<lambda>s. - snd s) (scores :: (string \<times> real) list))"
proof -
  have "sorted (map (\<lambda>s. - snd s) (sort_key (\<lambda>s. - snd s) scores))"
    by (rule sorted_sort_key)
  then show ?thesis by (simp add: sorted_map)
qed

lemma findSimilar_unfold:
  assumes "indexReady e" "map_get (tfidfVectors e) (path f) = Some sourceVector"
  shows "findSimilar a e f topK =
     map (\<lambda>(q, sim). \<lparr>sfile = the (getAbstractFileByPath a q), similarity = sim\<rparr>)
       (filter (\<lambda>(q, sim). getAbstractFileByPath a q \<noteq> None)
          (slice0 (sort_key (\<lambda>s. - snd s) (similarityScores e (path f) sourceVector)) topK))"
proof -
  have "List.map_filter
          (\<lambda>(q, sim). (case getAbstractFileByPath a q of
                          Some g \<Rightarrow> Some \<lparr>sfile = g, similarity = sim\<rparr>
                        | None \<Rightarrow> None)) xs
        = map (\<lambda>(q, sim). \<lparr>sfile = the (getAbstractFileByPath a q), similarity = sim\<rparr>)
            (filter (\<lambda>(q, sim). getAbstractFileByPath a q \<noteq> None) xs)" for xs
    by (induction xs) (auto split: option.splits)
  then show ?thesis using assms by (simp add: findSimilar_def Let_def)
qed

lemma findSimilar_properties:
  "(\<forall>r\<in>set (findSimilar a e f topK). path (sfile r) \<noteq> path f \<and> similarity r > 0.01)
   \<and> (0 \<le> topK \<longrightarrow> int (length (findSimilar a e f topK)) \<le> topK)
   \<and> sorted_wrt (\<lambda>x y. similarity y \<le> similarity x) (findSimilar a e f topK)"
proof (cases "indexReady e \<and> map_get (tfidfVectors e) (path f) \<noteq> None")
  case False
  then have "findSimilar a e f topK = []" by (auto simp: findSimilar_def)
  then show ?thesis by simp
next
  case True
  then obtain sourceVector where sv: "map_get (tfidfVectors e) (path f) = Some sourceVector"
    and ready: "indexReady e" by auto
  let ?scores = "similarityScores e (path f) sourceVector"
  let ?cut = "slice0 (sort_key (\<lambda>s. - snd s) ?scores) topK"
  let ?kept = "filter (\<lambda>(q, sim). getAbstractFileByPath a q \<noteq> None) ?cut"
  note unf = findSimilar_unfold[OF ready sv, of a topK]
  have "set ?cut \<subseteq> set (sort_key (\<lambda>s. - snd s) ?scores)" by (rule set_slice0)
  then have sub: "set ?kept \<subseteq> set ?scores" by auto
  have 1: "path (sfile r) \<noteq> path f \<and> similarity r > 0.01" if "r \<in> set (findSimilar a e f topK)" for r
  proof -
    from that obtain q sim where qs: "(q, sim) \<in> set ?kept"
      and r: "r = \<lparr>sfile = the (getAbstractFileByPath a q), similarity = sim\<rparr>"
      unfolding unf by auto
    from qs obtain g where g: "getAbstractFileByPath a q = Some g" by auto
    from qs sub have "(q, sim) \<in> set ?scores" by blast
    from similarityScores_entries[OF this] getAbstractFileByPath_path[OF g]
    show ?thesis by (simp add: r g)
  qed
  have "length (findSimilar a e f topK) \<le> length ?cut" unfolding unf by simp
  then have 2: "0 \<le> topK \<longrightarrow> int (length (findSimilar a e f topK)) \<le> topK"
    using length_slice0[of topK "sort_key (\<lambda>s. - snd s) ?scores"] by linarith
  have "sorted_wrt (\<lambda>x y. snd y \<le> snd x) ?kept"
    by (intro sorted_wrt_filter sorted_wrt_slice0 sorted_by_similarity)
  then have 3: "sorted_wrt (\<lambda>x y. similarity y \<le> similarity x) (findSimilar a e f topK)"
    unfolding unf by (simp add: sorted_wrt_map case_prod_unfold)
  show ?thesis using 1 2 3 by blast
qed

lemmas similar_eval =
  findSimilar_def similarityScores_def cosineSimilarity_def getAbstractFileByPath_def
  slice0_def map_get_def map_values_def

text \<open>
  C1. For every engine state and every queried document, \<^verbatim>\<open>findSimilar\<close> returns the
  empty list when the engine is not ready or the queried path has no TF-IDF vector;
  otherwise (and then as well) its result never contains the queried document itself,
  contains no entry with similarity \<open>\<le> 0.01\<close>, has at most \<open>topK\<close> entries, for
  \<open>topK\<close> a number of entries, that is \<open>topK \<ge> 0\<close>, and is sorted non-increasing by
  similarity.
\<close>

theorem findSimilar_result:
  "(\<not> indexReady e \<or> map_get (tfidfVectors e) (path f) = None \<longrightarrow> findSimilar a e f topK = [])
   \<and> (\<forall>r\<in>set (findSimilar a e f topK). path (sfile r) \<noteq> path f \<and> similarity r > 0.01)
   \<and> (0 \<le> topK \<longrightarrow> int (length (findSimilar a e f topK)) \<le> topK)
   \<and> sorted_wrt (\<lambda>x y. similarity y \<le> similarity x) (findSimilar a e f topK)"
  using findSimilar_properties[of a e f topK] by (auto simp: findSimilar_def)

theorem findSimilar_result_witness:
  "findSimilar
        \<lparr>files = [\<lparr>path = ''a.md'', extension = ''md'', mtime = 0\<rparr>,
                  \<lparr>path = ''b.md'', extension = ''md'', mtime = 0\<rparr>,
                  \<lparr>path = ''c.md'', extension = ''md'', mtime = 0\<rparr>],
         resolvedLinks = [], getSnippet = (\<lambda>f. [])\<rparr>
        new_engine \<lparr>path = ''a.md'', extension = ''md'', mtime = 0\<rparr> 2 = []
   \<and> findSimilar
        \<lparr>files = [\<lparr>path = ''a.md'', extension = ''md'', mtime = 0\<rparr>,
                  \<lparr>path = ''b.md'', extension = ''md'', mtime = 0\<rparr>,
                  \<lparr>path = ''c.md'', extension = ''md'', mtime = 0\<rparr>],
         resolvedLinks = [], getSnippet = (\<lambda>f. [])\<rparr>
        \<lparr>tfMaps = [(''a.md'', [(''x'', 1)]), (''b.md'', [(''x'', 1)]), (''c.md'', [(''y'', 1)])],
         idf = [(''x'', 1), (''y'', 1)],
         tfidfVectors = [(''a.md'', [(''x'', 1)]), (''b.md'', [(''x'', 1)]), (''c.md'', [(''y'', 1)])],
         indexReady = True\<rparr>
        \<lparr>path = ''a.md'', extension = ''md'', mtime = 0\<rparr> 2
      = [\<lparr>sfile = \<lparr>path = ''b.md'', extension = ''md'', mtime = 0\<rparr>, similarity = 1\<rparr>]"
  using findSimilar_result[of new_engine "\<lparr>path = ''a.md'', extension = ''md'', mtime = 0\<rparr>"
      "\<lparr>files = [\<lparr>path = ''a.md'', extension = ''md'', mtime = 0\<rparr>,
                  \<lparr>path = ''b.md'', extension = ''md'', mtime = 0\<rparr>,
                  \<lparr>path = ''c.md'', extension = ''md'', mtime = 0\<rparr>],
         resolvedLinks = [], getSnippet = (\<lambda>f. [])\<rparr>" 2]
    findSimilar_result[of
      "\<lparr>tfMaps = [(''a.md'', [(''x'', 1)]), (''b.md'', [(''x'', 1)]), (''c.md'', [(''y'', 1)])],
         idf = [(''x'', 1), (''y'', 1)],
         tfidfVectors = [(''a.md'', [(''x'', 1)]), (''b.md'', [(''x'', 1)]), (''c.md'', [(''y'', 1)])],
         indexReady = True\<rparr>"
      "\<lparr>path = ''a.md'', extension = ''md'', mtime = 0\<rparr>"
      "\<lparr>files = [\<lparr>path = ''a.md'', extension = ''md'', mtime = 0\<rparr>,
                  \<lparr>path = ''b.md'', extension = ''md'', mtime = 0\<rparr>,
                  \<lparr>path = ''c.md'', extension = ''md'', mtime = 0\<rparr>],
         resolvedLinks = [], getSnippet = (\<lambda>f. [])\<rparr>" 2]
  by (simp add: similar_eval new_engine_def)

subsection \<open>The daily digest\<close>

lemma scoreCandidate_reason:
  "rfile (scoreCandidate now a c) = fst c
   \<and> reason (scoreCandidate now a c)
       = priority_reason (relevanceScore (snd c)) (timeDecayScore now (mtime (fst c)))
           (orphanBoost (getBacklinkCount a (fst c)))"
  by (simp add: scoreCandidate_def priority_reason_def Let_def)

lemma forgottenNote_reason:
  "rfile (forgottenNote now a f) = f
   \<and> reason (forgottenNote now a f)
       = (if orphanBoost (getBacklinkCount a f) > 0.5 then UnlinkedNote
          else NotModifiedIn (Math_round (getDaysSinceModified now f)))"
  by (simp add: forgottenNote_def Let_def)

lemma set_top: "set (slice0 (sort_key k xs) n) \<subseteq> set xs"
  using set_slice0[of "sort_key k xs" n] by simp

lemma digest_anchor_results:
  assumes "isReady e" "getRecentlyModifiedFiles now a 3 \<noteq> []"
    and "r \<in> set (getDailyDigest now a e minDaysOld count)"
  shows "\<exists>c\<in>set (digestCandidates now a e minDaysOld (getRecentlyModifiedFiles now a 3)).
           r = scoreCandidate now a (snd c)"
proof -
  let ?cm = "digestCandidates now a e minDaysOld (getRecentlyModifiedFiles now a 3)"
  let ?scored = "map (\<lambda>(p, candidate). scoreCandidate now a candidate) ?cm"
  from assms have "r \<in> set (slice0 (sort_key (\<lambda>n. - score n) ?scored) count)"
    by (simp add: getDailyDigest_def Let_def)
  with set_top[of "\<lambda>n. - score n" ?scored count] have "r \<in> set ?scored" by blast
  then show ?thesis by (auto simp: case_prod_unfold)
qed

lemma digest_fallback_results:
  assumes "isReady e" "getRecentlyModifiedFiles now a 3 = []"
    and "r \<in> set (getDailyDigest now a e minDaysOld count)"
  shows "\<exists>f\<in>set (getMarkdownFiles a). r = forgottenNote now a f"
proof -
  let ?scored = "map (forgottenNote now a)
      (filter (\<lambda>f. \<not> getDaysSinceModified now f < minDaysOld) (getMarkdownFiles a))"
  from assms have "r \<in> set (slice0 (sort_key (\<lambda>n. - score n) ?scored) count)"
    by (simp add: getDailyDigest_def getForgottenNotes_def Let_def)
  with set_top[of "\<lambda>n. - score n" ?scored count] have "r \<in> set ?scored" by blast
  then show ?thesis by auto
qed

lemma digest_not_ready: "\<not> isReady e \<Longrightarrow> getDailyDigest now a e minDaysOld count = []"
  by (simp add: getDailyDigest_def)

lemma decay_hundred_days: "timeDecayScore 8640000000 0 > 0.8"
proof -
  have "1 + (5::real) \<le> exp 5" by (rule exp_ge_add_one_self)
  then have "inverse (exp (5::real)) \<le> inverse 6" by (intro le_imp_inverse_le) simp_all
  then have "exp (- (5::real)) < 1 / 5" by (simp add: exp_minus)
  then show ?thesis by (simp add: timeDecayScore_def)
qed

lemmas digest_eval =
  getDailyDigest_def getForgottenNotes_def getRecentlyModifiedFiles_def getMarkdownFiles_def
  getDaysSinceModified_def forgottenNote_def scoreCandidate_def digestCandidates_def
  getBacklinkCount_def orphanBoost_def relevanceScore_def isReady_def

text \<open>
  C4. The fallback of the digest has its own reasons. A note without backlinks that was
  modified a hundred days ago, in a vault without recent files, gets the reason
  \<^verbatim>\<open>Unlinked note\<close>; by threshold priority with relevance 0.3 its staleness above 0.8
  would give \<^verbatim>\<open>Written long ago\<close>.
\<close>

theorem digest_fallback_reason_counterexample:
  "map reason
     (getDailyDigest 8640000000
        \<lparr>files = [\<lparr>path = ''old.md'', extension = ''md'', mtime = 0\<rparr>],
         resolvedLinks = [], getSnippet = (\<lambda>f. [])\<rparr>
        \<lparr>tfMaps = [], idf = [], tfidfVectors = [], indexReady = True\<rparr> 7 5)
     = [UnlinkedNote]
   \<and> priority_reason 0.3 (timeDecayScore 8640000000 0) (orphanBoost 0) = WrittenLongAgo"
  using decay_hundred_days by (simp add: digest_eval slice0_def priority_reason_def)

text \<open>
  C4, amended. Every result of the daily digest that comes from the anchor-based path
  is a scored candidate, and its reason is chosen by threshold priority on the relevance
  of the candidate's greatest similarity, the staleness of its file and the connectivity
  boost of its file. Every result of the fallback without recent anchors has the reason
  \<^verbatim>\<open>Unlinked note\<close> when the connectivity boost of its file is above 0.5, and
  otherwise the reason \<^verbatim>\<open>Not modified in n days\<close> with the rounded age of the file.
\<close>

theorem digest_reasons:
  "(getRecentlyModifiedFiles now a 3 \<noteq> [] \<longrightarrow>
      (\<forall>r\<in>set (getDailyDigest now a e minDaysOld count).
         \<exists>c\<in>set (digestCandidates now a e minDaysOld (getRecentlyModifiedFiles now a 3)).
           rfile r = fst (snd c)
           \<and> reason r = priority_reason (relevanceScore (snd (snd c)))
                          (timeDecayScore now (mtime (rfile r)))
                          (orphanBoost (getBacklinkCount a (rfile r)))))
   \<and> (getRecentlyModifiedFiles now a 3 = [] \<longrightarrow>
      (\<forall>r\<in>set (getDailyDigest now a e minDaysOld count).
         reason r = (if orphanBoost (getBacklinkCount a (rfile r)) > 0.5 then UnlinkedNote
                     else NotModifiedIn (Math_round (getDaysSinceModified now (rfile r))))))"
proof (cases "isReady e")
  case False
  then show ?thesis by (simp add: digest_not_ready)
next
  case True
  have 1: "\<exists>c\<in>set (digestCandidates now a e minDaysOld (getRecentlyModifiedFiles now a 3)).
           rfile r = fst (snd c)
           \<and> reason r = priority_reason (relevanceScore (snd (snd c)))
                          (timeDecayScore now (mtime (rfile r)))
                          (orphanBoost (getBacklinkCount a (rfile r)))"
    if "getRecentlyModifiedFiles now a 3 \<noteq> []"
      and "r \<in> set (getDailyDigest now a e minDaysOld count)" for r
  proof -
    from digest_anchor_results[OF True that] obtain c
      where c: "c \<in> set (digestCandidates now a e minDaysOld (getRecentlyModifiedFiles now a 3))"
        and r: "r = scoreCandidate now a (snd c)"
      by blast
    show ?thesis
      using c scoreCandidate_reason[of now a "snd c"] by (intro bexI[of _ c]) (simp_all add: r)
  qed
  have 2: "reason r = (if orphanBoost (getBacklinkCount a (rfile r)) > 0.5 then UnlinkedNote
                     else NotModifiedIn (Math_round (getDaysSinceModified now (rfile r))))"
    if "getRecentlyModifiedFiles now a 3 = []"
      and "r \<in> set (getDailyDigest now a e minDaysOld count)" for r
  proof -
    from digest_fallback_results[OF True that] obtain f where r: "r = forgottenNote now a f"
      by blast
    show ?thesis using forgottenNote_reason[of now a f] by (simp add: r)
  qed
  show ?thesis using 1 2 by blast
qed

theorem digest_reasons_witness:
  "map (\<lambda>r. (path (rfile r), reason r))
     (getDailyDigest 8640000000
        \<lparr>files = [\<lparr>path = ''new.md'', extension = ''md'', mtime = 8640000000\<rparr>,
                  \<lparr>path = ''old.md'', extension = ''md'', mtime = 0\<rparr>],
         resolvedLinks = [], getSnippet = (\<lambda>f. [])\<rparr>
        \<lparr>tfMaps = [(''new.md'', [(''x'', 1)]), (''old.md'', [(''x'', 1)])], idf = [(''x'', 1)],
         tfidfVectors = [(''new.md'', [(''x'', 1)]), (''old.md'', [(''x'', 1)])],
         indexReady = True\<rparr> 7 5)
     = [(''old.md'', RelatedToRecentWork)]
   \<and> map (\<lambda>r. (path (rfile r), reason r))
     (getDailyDigest 8640000000
        \<lparr>files = [\<lparr>path = ''old.md'', extension = ''md'', mtime = 0\<rparr>],
         resolvedLinks = [(''hub.md'', [(''old.md'', 1)])], getSnippet = (\<lambda>f. [])\<rparr>
        \<lparr>tfMaps = [], idf = [], tfidfVectors = [], indexReady = True\<rparr> 7 5)
     = [(''old.md'', NotModifiedIn 100)]"
  using digest_reasons[of 8640000000
        "\<lparr>files = [\<lparr>path = ''new.md'', extension = ''md'', mtime = 8640000000\<rparr>,
                  \<lparr>path = ''old.md'', extension = ''md'', mtime = 0\<rparr>],
         resolvedLinks = [], getSnippet = (\<lambda>f. [])\<rparr>"
        "\<lparr>tfMaps = [(''new.md'', [(''x'', 1)]), (''old.md'', [(''x'', 1)])], idf = [(''x'', 1)],
         tfidfVectors = [(''new.md'', [(''x'', 1)]), (''old.md'', [(''x'', 1)])],
         indexReady = True\<rparr>" 7 5]
    digest_reasons[of 8640000000
        "\<lparr>files = [\<lparr>path = ''old.md'', extension = ''md'', mtime = 0\<rparr>],
         resolvedLinks = [(''hub.md'', [(''old.md'', 1)])], getSnippet = (\<lambda>f. [])\<rparr>"
        "\<lparr>tfMaps = [], idf = [], tfidfVectors = [], indexReady = True\<rparr>" 7 5]
  by (simp add: digest_eval similar_eval map_set_def map_keys_def Math_round_def)

end
